theory Spec2Isabelle
  imports Main
begin

section \<open>The RESP stack-machine parser of protocol/redis/resp.go\<close>

text \<open>
  A shallow embedding of \<^verbatim>\<open>RespParser\<close>. Each closure that the Go code pushes on the
  parser's stack becomes a constructor of \<open>action\<close> holding the variables the closure
  captures; the body of the closure becomes a function from the parser state to the
  returned error and the new state. Bytes are \<open>char\<close>s, byte slices and Go strings are
  \<open>string\<close>s.
\<close>

subsection \<open>Values, errors, constants\<close>

text \<open>
  The dynamic values (\<^verbatim>\<open>interface{}\<close>) the parser stores in result slots: \<^verbatim>\<open>nil\<close>,
  a Go \<^verbatim>\<open>string\<close>, an \<^verbatim>\<open>error\<close> made by \<^verbatim>\<open>errors.New\<close>, an \<^verbatim>\<open>int\<close>, a \<^verbatim>\<open>[]byte\<close>
  and a \<^verbatim>\<open>[]interface{}\<close>.
\<close>

datatype rval = VNil | VStr string | VErr string | VInt int | VBytes string | VArr "rval list"

datatype num_err = ErrSyntax | ErrRange

text \<open>
  The errors a frame can return: the reader's \<^verbatim>\<open>ErrShortRead\<close>, the two errors declared
  in resp.go, the \<^verbatim>\<open>*strconv.NumError\<close> of \<^verbatim>\<open>strconv.Atoi\<close>, and \<open>Panic\<close> for a Go
  run-time panic (failed type assertion, index out of range, \<^verbatim>\<open>make\<close> with a negative
  capacity, call of a nil function).
\<close>

datatype error = ErrShortRead | ProtocolErr | RecursionLimitErr | NumError num_err | Panic

definition tagStatus :: char where "tagStatus = CHR ''+''"
definition tagError :: char where "tagError = CHR ''-''"
definition tagInt :: char where "tagInt = CHR '':''"
definition tagBulk :: char where "tagBulk = CHR ''$''"
definition tagArray :: char where "tagArray = CHR ''*''"
definition stackLimit :: int where "stackLimit = 8"

definition CR :: char where "CR = CHR 0x0D"
definition LF :: char where "LF = CHR 0x0A"
definition CRLF :: string where "CRLF = [CR, LF]"

subsection \<open>Go's int and strconv.Atoi\<close>

text \<open>
  Go's \<^verbatim>\<open>int\<close> is taken as the 64-bit two's complement integer: an \<open>int\<close> kept in
  \<open>[minInt, maxInt]\<close>, with the wrap-around written out where the code adds.
\<close>

definition maxInt :: int where "maxInt = 2 ^ 63 - 1"
definition minInt :: int where "minInt = - (2 ^ 63)"

definition wrapInt :: "int \<Rightarrow> int" where
  "wrapInt x = (x + 2 ^ 63) mod 2 ^ 64 - 2 ^ 63"

definition isDigit :: "char \<Rightarrow> bool" where
  "isDigit c = (48 \<le> (of_char c :: nat) \<and> (of_char c :: nat) \<le> 57)"

text \<open>
  \<^verbatim>\<open>strconv.ParseUint\<close> in base 10 on 64 bits (Go's standard library): the digits are read
  from the left; a byte that is not a decimal digit is a syntax error, and a value that no
  longer fits 64 bits is a range error, whichever comes first.
\<close>

fun parseUint :: "int \<Rightarrow> string \<Rightarrow> num_err + int" where
  "parseUint n [] = Inr n"
| "parseUint n (c # cs) =
     (if \<not> isDigit c then Inl ErrSyntax
      else (let n1 = 10 * n + ((of_char c :: int) - 48)
            in if 2 ^ 64 - 1 < n1 then Inl ErrRange else parseUint n1 cs))"

text \<open>
  \<^verbatim>\<open>strconv.Atoi\<close>, that is \<^verbatim>\<open>ParseInt(s, 10, 0)\<close>: an empty string is a syntax error; an
  optional sign is removed and the rest goes through \<^verbatim>\<open>ParseUint\<close>; a magnitude outside
  \<^verbatim>\<open>int\<close> is a range error.
\<close>

definition Atoi :: "string \<Rightarrow> num_err + int" where
  "Atoi s =
     (if s = [] then Inl ErrSyntax
      else (let neg = (hd s = CHR ''-'');
                body = (if hd s = CHR ''-'' \<or> hd s = CHR ''+'' then tl s else s)
            in if body = [] then Inl ErrSyntax
               else (case parseUint 0 body of
                       Inl e \<Rightarrow> Inl e
                     | Inr un \<Rightarrow>
                         if \<not> neg \<and> 2 ^ 63 \<le> un then Inl ErrRange
                         else if neg \<and> 2 ^ 63 < un then Inl ErrRange
                         else Inr (if neg then - un else un))))"

text \<open>
  The lines the spec calls numeric: a signed decimal integer, that is an optional sign
  followed by at least one decimal digit.
\<close>

definition numeric :: "string \<Rightarrow> bool" where
  "numeric s =
     (case s of
        [] \<Rightarrow> False
      | c # cs \<Rightarrow>
          if c = CHR ''-'' \<or> c = CHR ''+'' then cs \<noteq> [] \<and> list_all isDigit cs
          else list_all isDigit s)"

subsection \<open>The byte source\<close>

text \<open>
  Modelled from the spec: the \<^verbatim>\<open>reader.Reader\<close> of package assembly/reader, which is not
  among the sources. The spec (section 6) gives it three operations: \<^verbatim>\<open>read_line\<close>
  returns the bytes up to the next line terminator and consumes the terminator, or signals
  that more data is needed when no terminator is buffered; \<^verbatim>\<open>read_exact(n)\<close> returns
  exactly \<open>n\<close> bytes if available and otherwise the partial bytes, which it does not consume;
  \<^verbatim>\<open>discard(n)\<close> advances the source past \<open>n\<close> bytes without materializing them.
  The reader is the bytes buffered so far and the number of bytes still to be skipped when
  they arrive: the source is advanced past \<open>n\<close> bytes also when fewer than \<open>n\<close> are
  buffered, as skipping an oversized payload needs.
\<close>

record reader =
  buf :: string
  pending :: nat

text \<open>Modelled from the spec: the network layer hands the next bytes of the stream to the reader.\<close>

definition feed :: "string \<Rightarrow> reader \<Rightarrow> reader" where
  "feed bs r = \<lparr>buf = buf r @ drop (pending r) bs, pending = pending r - length bs\<rparr>"

text \<open>Modelled from the spec: the position of the first line terminator, if one is buffered.\<close>

fun splitLine :: "string \<Rightarrow> (string \<times> string) option" where
  "splitLine [] = None"
| "splitLine [c] = None"
| "splitLine (c # d # cs) =
     (if c = CR \<and> d = LF then Some ([], cs)
      else (case splitLine (d # cs) of None \<Rightarrow> None | Some (l, rest) \<Rightarrow> Some (c # l, rest)))"

text \<open>Modelled from the spec: \<^verbatim>\<open>read_line\<close>.\<close>

definition ReadLine :: "reader \<Rightarrow> (error + string) \<times> reader" where
  "ReadLine r =
     (case splitLine (buf r) of
        None \<Rightarrow> (Inl ErrShortRead, r)
      | Some (l, rest) \<Rightarrow> (Inr l, r\<lparr>buf := rest\<rparr>))"

text \<open>
  Modelled from the spec: \<^verbatim>\<open>read_exact\<close>. It returns the bytes and the error, as Go's
  \<^verbatim>\<open>ReadN\<close> returns \<^verbatim>\<open>([]byte, error)\<close>.
\<close>

definition ReadN :: "int \<Rightarrow> reader \<Rightarrow> (string \<times> error option) \<times> reader" where
  "ReadN n r =
     (if n \<le> int (length (buf r))
      then ((take (nat n) (buf r), None), r\<lparr>buf := drop (nat n) (buf r)\<rparr>)
      else ((buf r, Some ErrShortRead), r))"

text \<open>Modelled from the spec: \<^verbatim>\<open>discard\<close>. A count that is not positive skips nothing.\<close>

definition Discard :: "int \<Rightarrow> reader \<Rightarrow> reader" where
  "Discard n r =
     (if n \<le> 0 then r
      else \<lparr>buf = drop (nat n) (buf r), pending = pending r + (nat n - length (buf r))\<rparr>)"

subsection \<open>Frames and the parser\<close>

text \<open>
  One constructor for each closure of resp.go, with the variables it captures (the reader
  is the parser's single reader). \<open>NoAction\<close> is the nil \<^verbatim>\<open>run\<close> of the root frame.
\<close>

datatype action =
    NoAction
  | ParseValue
  | ParseSimpleString bool
  | ParseInt
  | ParseBulk
  | ParseBulkN string int
  | ParseArray
  | ParseNArrayFields int

record stackFrame =
  run :: action
  result :: rval

text \<open>
  The stack is kept with its top frame first: the head of the list is
  \<^verbatim>\<open>p.stack[len(p.stack)-1]\<close>, the second element is \<^verbatim>\<open>p.stack[len(p.stack)-2]\<close> and the
  last element is the root frame \<^verbatim>\<open>p.stack[0]\<close>.
\<close>

record RespParser =
  stack :: "stackFrame list"
  BulkCaptureLimit :: int
  rd :: reader

definition push :: "action \<Rightarrow> RespParser \<Rightarrow> RespParser" where
  "push f p = p\<lparr>stack := \<lparr>run = f, result = VNil\<rparr> # stack p\<rparr>"

text \<open>
  \<^verbatim>\<open>pop\<close> is called by a running frame only, so on a stack of at least two frames (see
  \<open>step\<close>); on a shorter stack the Go code panics and \<open>step\<close> never gets here.
\<close>

definition pop :: "rval \<Rightarrow> RespParser \<Rightarrow> RespParser" where
  "pop v p = (case stack p of
                f # g # rest \<Rightarrow> p\<lparr>stack := g\<lparr>result := v\<rparr> # rest\<rparr>
              | _ \<Rightarrow> p)"

text \<open>
  \<^verbatim>\<open>p.Result()\<close>: the slot of the top frame. Indexing an empty stack panics.
\<close>

definition Result :: "RespParser \<Rightarrow> error + rval" where
  "Result p = (case stack p of f # _ \<Rightarrow> Inr (result f) | [] \<Rightarrow> Inl Panic)"

text \<open>\<^verbatim>\<open>p.stack[len(p.stack)-1].result = v\<close>\<close>

definition setTopResult :: "rval \<Rightarrow> RespParser \<Rightarrow> RespParser" where
  "setTopResult v p = (case stack p of f # rest \<Rightarrow> p\<lparr>stack := f\<lparr>result := v\<rparr> # rest\<rparr> | [] \<Rightarrow> p)"

definition startParseValue :: "RespParser \<Rightarrow> RespParser" where
  "startParseValue p = push ParseValue p"

definition startParseSimpleString :: "bool \<Rightarrow> RespParser \<Rightarrow> RespParser" where
  "startParseSimpleString asError p = push (ParseSimpleString asError) p"

definition startParseInt :: "RespParser \<Rightarrow> RespParser" where
  "startParseInt p = push ParseInt p"

definition startParseBulk :: "RespParser \<Rightarrow> RespParser" where
  "startParseBulk p = startParseInt (push ParseBulk p)"

definition startParseBulkN :: "string \<Rightarrow> int \<Rightarrow> RespParser \<Rightarrow> RespParser" where
  "startParseBulkN accum n p = push (ParseBulkN accum n) p"

definition startParseArray :: "RespParser \<Rightarrow> RespParser" where
  "startParseArray p = startParseInt (push ParseArray p)"

definition startParseNArrayFields :: "int \<Rightarrow> RespParser \<Rightarrow> RespParser" where
  "startParseNArrayFields n p = startParseValue (push (ParseNArrayFields n) p)"

subsection \<open>The bodies of the frames\<close>

text \<open>The closure of \<^verbatim>\<open>startParseValue\<close>.\<close>

definition runParseValue :: "RespParser \<Rightarrow> error option \<times> RespParser" where
  "runParseValue p =
     (if int (length (stack p)) > stackLimit then (Some RecursionLimitErr, p)
      else (case ReadN 1 (rd p) of
              ((out, Some e), r') \<Rightarrow> (Some e, p\<lparr>rd := r'\<rparr>)
            | ((out, None), r') \<Rightarrow>
                (let p1 = pop VNil (p\<lparr>rd := r'\<rparr>)
                 in (case out of
                       [] \<Rightarrow> (Some Panic, p1)
                     | c # _ \<Rightarrow>
                         if c = tagStatus then (None, startParseSimpleString False p1)
                         else if c = tagError then (None, startParseSimpleString True p1)
                         else if c = tagInt then (None, startParseInt p1)
                         else if c = tagBulk then (None, startParseBulk p1)
                         else if c = tagArray then (None, startParseArray p1)
                         else (Some ProtocolErr, p1)))))"

text \<open>The closure of \<^verbatim>\<open>startParseSimpleString\<close>.\<close>

definition runParseSimpleString :: "bool \<Rightarrow> RespParser \<Rightarrow> error option \<times> RespParser" where
  "runParseSimpleString asError p =
     (case ReadLine (rd p) of
        (Inl e, r') \<Rightarrow> (Some e, p\<lparr>rd := r'\<rparr>)
      | (Inr out, r') \<Rightarrow>
          if asError then (None, pop (VErr out) (p\<lparr>rd := r'\<rparr>))
          else (None, pop (VStr out) (p\<lparr>rd := r'\<rparr>)))"

text \<open>The closure of \<^verbatim>\<open>startParseInt\<close>.\<close>

definition runParseInt :: "RespParser \<Rightarrow> error option \<times> RespParser" where
  "runParseInt p =
     (case ReadLine (rd p) of
        (Inl e, r') \<Rightarrow> (Some e, p\<lparr>rd := r'\<rparr>)
      | (Inr out, r') \<Rightarrow>
          (case Atoi out of
             Inl e \<Rightarrow> (Some (NumError e), p\<lparr>rd := r'\<rparr>)
           | Inr i \<Rightarrow> (None, pop (VInt i) (p\<lparr>rd := r'\<rparr>))))"

text \<open>
  The closure of \<^verbatim>\<open>startParseBulk\<close>. \<^verbatim>\<open>p.Result().(int)\<close> panics unless the slot holds
  an int. After \<^verbatim>\<open>p.pop(result)\<close> the second \<^verbatim>\<open>p.Result().(int)\<close> reads \<open>result\<close> back;
  \<^verbatim>\<open>+ 2\<close> wraps.
\<close>

definition runParseBulk :: "RespParser \<Rightarrow> error option \<times> RespParser" where
  "runParseBulk p =
     (case Result p of
        Inr (VInt res) \<Rightarrow>
          if res < 0 then (None, pop VNil p)
          else if res \<le> BulkCaptureLimit p
          then (None, startParseBulkN [] res (pop VNil p))
          else (let p1 = pop (VInt res) p
                in (case Result p1 of
                      Inr (VInt res') \<Rightarrow> (None, p1\<lparr>rd := Discard (wrapInt (res' + 2)) (rd p1)\<rparr>)
                    | _ \<Rightarrow> (Some Panic, p1)))
      | _ \<Rightarrow> (Some Panic, p))"

text \<open>
  The closure of \<^verbatim>\<open>startParseBulkN\<close>. On a short read \<open>0 \<le> len(out) < n\<close>, so
  \<^verbatim>\<open>n-len(out)\<close> does not wrap.
\<close>

definition runParseBulkN :: "string \<Rightarrow> int \<Rightarrow> RespParser \<Rightarrow> error option \<times> RespParser" where
  "runParseBulkN accum n p =
     (case ReadN n (rd p) of
        ((out, Some e), r') \<Rightarrow>
          if e = ErrShortRead
          then (let accum' = accum @ out;
                    p1 = pop VNil (p\<lparr>rd := r'\<rparr>);
                    p2 = p1\<lparr>rd := Discard (int (length out)) (rd p1)\<rparr>
                in (Some e, startParseBulkN accum' (n - int (length out)) p2))
          else (Some e, p\<lparr>rd := r'\<rparr>)
      | ((out, None), r') \<Rightarrow>
          (let p1 = p\<lparr>rd := Discard 2 r'\<rparr>
           in (None, pop (VBytes (accum @ out)) p1)))"

text \<open>
  The closure of \<^verbatim>\<open>startParseArray\<close>. \<^verbatim>\<open>make([]interface{}, 0, n)\<close> panics at run time
  when \<open>n\<close> is negative; the allocation itself is not modelled.
\<close>

definition runParseArray :: "RespParser \<Rightarrow> error option \<times> RespParser" where
  "runParseArray p =
     (case Result p of
        Inr (VInt n) \<Rightarrow>
          (let p1 = pop VNil p
           in if n < 0 then (Some Panic, p1)
              else (None, startParseNArrayFields n (setTopResult (VArr []) p1)))
      | _ \<Rightarrow> (Some Panic, p))"

text \<open>
  The closure of \<^verbatim>\<open>startParseNArrayFields\<close>. \<^verbatim>\<open>p.stack[len(p.stack)-2].result\<close> is the
  slot of the frame below the running one; the type assertion panics unless it holds a
  \<^verbatim>\<open>[]interface{}\<close>.
\<close>

definition runParseNArrayFields :: "int \<Rightarrow> RespParser \<Rightarrow> error option \<times> RespParser" where
  "runParseNArrayFields n p =
     (case stack p of
        f # g # rest \<Rightarrow>
          (case result g of
             VArr xs \<Rightarrow>
               (let results = xs @ [result f];
                    p1 = pop (VArr results) p
                in if n > 1 then (None, startParseNArrayFields (n - 1) p1)
                   else (None, p1))
           | _ \<Rightarrow> (Some Panic, p))
      | _ \<Rightarrow> (Some Panic, p))"

subsection \<open>The run loop and the public functions\<close>

text \<open>
  \<^verbatim>\<open>p.stack[len(p.stack)-1].run()\<close>. \<^verbatim>\<open>Run\<close> calls it on a stack of at least two
  frames. On one frame or none the Go code panics (the root's \<^verbatim>\<open>run\<close> is nil, an empty
  stack has no last element, and a \<^verbatim>\<open>pop\<close> would index below the stack).
\<close>

definition step :: "RespParser \<Rightarrow> error option \<times> RespParser" where
  "step p =
     (case stack p of
        f # g # rest \<Rightarrow>
          (case run f of
             NoAction \<Rightarrow> (Some Panic, p)
           | ParseValue \<Rightarrow> runParseValue p
           | ParseSimpleString asError \<Rightarrow> runParseSimpleString asError p
           | ParseInt \<Rightarrow> runParseInt p
           | ParseBulk \<Rightarrow> runParseBulk p
           | ParseBulkN accum n \<Rightarrow> runParseBulkN accum n p
           | ParseArray \<Rightarrow> runParseArray p
           | ParseNArrayFields n \<Rightarrow> runParseNArrayFields n p)
      | _ \<Rightarrow> (Some Panic, p))"

text \<open>
  The termination argument of \<^verbatim>\<open>Run\<close>: a frame that returns no error either consumed
  buffered bytes, or left a value, line or integer frame on top (which reads before
  anything else), or shortened the stack, or replaced a bulk frame by a payload frame.
\<close>

definition topRank :: "RespParser \<Rightarrow> nat" where
  "topRank p =
     (case stack p of
        [] \<Rightarrow> 0
      | f # _ \<Rightarrow>
          (case run f of
             ParseValue \<Rightarrow> 0
           | ParseSimpleString _ \<Rightarrow> 0
           | ParseInt \<Rightarrow> 0
           | ParseBulk \<Rightarrow> 2 * length (stack p) + 4
           | _ \<Rightarrow> 2 * length (stack p) + 3))"

function Run :: "RespParser \<Rightarrow> error option \<times> RespParser" where
  "Run p =
     (if length (stack p) = 1 then (None, p)
      else (case step p of
              (Some e, p') \<Rightarrow> (Some e, p')
            | (None, p') \<Rightarrow> Run p'))"
  by pat_completeness auto
termination
proof (relation "measures [\<lambda>p. length (buf (rd p)), topRank]")
  let ?len = "\<lambda>p. length (buf (rd p))"
  let ?decr = "\<lambda>p' p. ?len p' < ?len p \<or> (?len p' \<le> ?len p \<and> topRank p' < topRank p)"
  note start_defs = push_def startParseValue_def startParseSimpleString_def
      startParseInt_def startParseBulk_def startParseBulkN_def startParseArray_def
      startParseNArrayFields_def
  have line: "length rest < length s" if "splitLine s = Some (l, rest)" for s l rest
    using that
    by (induction s arbitrary: l rule: splitLine.induct) (auto split: if_splits option.splits)
  have ReadLine_len: "length (buf r') < length (buf r)" if "ReadLine r = (Inr l, r')" for r l r'
    using that by (auto simp: ReadLine_def dest: line split: option.splits)
  have ReadN_len: "length (buf r') \<le> length (buf r)" if "ReadN n r = ((out, None), r')" for n r out r'
    using that by (auto simp: ReadN_def split: if_splits)
  have Discard_len: "length (buf (Discard n r)) \<le> length (buf r)" for n r
    by (simp add: Discard_def)
  have pop_rd: "rd (pop v p) = rd p" for v p
    by (simp add: pop_def split: list.splits)
  have set_rd: "rd (setTopResult v p) = rd p" for v p
    by (simp add: setTopResult_def split: list.splits)
  have start_rd: "rd (startParseNArrayFields n p) = rd p" "rd (startParseBulkN a n p) = rd p" for a n p
    by (simp_all add: start_defs)
  have rank_rd: "topRank (p\<lparr>rd := r\<rparr>) = topRank p" for p r
    by (simp add: topRank_def split: list.splits action.splits)
  have rank_pop: "topRank (pop v p) < 2 * length rest + 7" if "stack p = f # g # rest" for p f g rest v
    using that by (simp add: topRank_def pop_def split: action.splits)
  have rank_bulk: "topRank p = 2 * length rest + 8"
    if "stack p = f # g # rest" "run f = ParseBulk" for p f g rest
    using that by (simp add: topRank_def)
  have rank_other: "topRank p = 2 * length rest + 7"
    if "stack p = f # g # rest"
      "run f = ParseBulkN a n \<or> run f = ParseArray \<or> run f = ParseNArrayFields m"
    for p f g rest a n m
    using that by (auto simp: topRank_def)
  have rank_pushN: "topRank (startParseBulkN a n (pop v p)) = 2 * length rest + 7"
    if "stack p = f # g # rest" for p f g rest a n v
    using that by (simp add: topRank_def pop_def start_defs)
  have rank_fields: "topRank (startParseNArrayFields n q) = 0" for n q
    by (simp add: topRank_def start_defs)
  have d_value: "?decr p' p" if "runParseValue p = (None, p')" for p p'
    using that
    by (auto simp: runParseValue_def ReadN_def start_defs pop_rd Let_def
        split: if_splits list.splits)
  have d_str: "?decr p' p" if "runParseSimpleString b p = (None, p')" for b p p'
    using that
    by (auto simp: runParseSimpleString_def pop_rd
        dest: ReadLine_len split: if_splits prod.splits sum.splits)
  have d_int: "?decr p' p" if "runParseInt p = (None, p')" for p p'
    using that
    by (auto simp: runParseInt_def pop_rd
        dest: ReadLine_len split: if_splits prod.splits sum.splits)
  have d_bulk: "?decr p' p"
    if a: "stack p = f # g # rest" "run f = ParseBulk" "runParseBulk p = (None, p')"
    for p p' f g rest
  proof -
    have "?len p' \<le> ?len p"
      using a(3)
      by (auto simp: runParseBulk_def Let_def Discard_len pop_rd start_rd
          split: sum.splits rval.splits if_splits)
    moreover have "topRank (pop v p) < 2 * length rest + 8" for v
      using rank_pop[OF a(1), of v] by simp
    then have "topRank p' < topRank p"
      using a(3) rank_pushN[OF a(1)] rank_bulk[OF a(1,2)]
      by (auto simp: runParseBulk_def Let_def rank_rd split: sum.splits rval.splits if_splits)
    ultimately show ?thesis by simp
  qed
  have d_bulkN: "?decr p' p"
    if a: "stack p = f # g # rest" "run f = ParseBulkN acc n" "runParseBulkN acc n p = (None, p')"
    for p p' f g rest acc n
  proof -
    have "?len p' \<le> ?len p"
      using a(3)
      by (auto simp: runParseBulkN_def Let_def pop_rd dest!: ReadN_len
          split: prod.splits option.splits if_splits intro: order_trans[OF Discard_len])
    moreover have "stack (p\<lparr>rd := r\<rparr>) = f # g # rest" for r
      using a(1) by simp
    from rank_pop[OF this] have "topRank p' < topRank p"
      using a(3) rank_other[OF a(1), of acc n] a(2)
      by (auto simp: runParseBulkN_def Let_def split: prod.splits option.splits if_splits)
    ultimately show ?thesis by simp
  qed
  have d_array: "?decr p' p"
    if a: "stack p = f # g # rest" "run f = ParseArray" "runParseArray p = (None, p')"
    for p p' f g rest
    using a
    by (auto simp: runParseArray_def Let_def rank_fields rank_other pop_rd set_rd start_rd
        split: sum.splits if_splits rval.splits)
  have d_fields: "?decr p' p"
    if a: "stack p = f # g # rest" "run f = ParseNArrayFields n"
      "runParseNArrayFields n p = (None, p')"
    for p p' f g rest n
    using a rank_pop[OF a(1)] rank_other[OF a(1), of _ _ n]
    by (auto simp: runParseNArrayFields_def Let_def rank_fields pop_rd start_rd
        split: sum.splits rval.splits if_splits)
  have step_decr: "?decr p' p" if "step p = (None, p')" for p p'
    using that unfolding step_def
    by (auto split: list.splits action.splits
        dest: d_value d_str d_int d_bulk d_bulkN d_array d_fields)
  show "wf (measures [\<lambda>p. length (buf (rd p)), topRank])"
    by simp
  show "(p', p) \<in> measures [\<lambda>p. length (buf (rd p)), topRank]"
    if "length (stack p) \<noteq> 1" "(e, p') = step p" "e = None" for p e p'
    using step_decr[of p p'] that by auto
qed

text \<open>
  \<^verbatim>\<open>Reset\<close> keeps the root frame \<^verbatim>\<open>p.stack[:1]\<close> (the last element here) with whatever
  its slot holds, takes the reader and pushes the frame that parses one value.
\<close>

definition Reset :: "reader \<Rightarrow> RespParser \<Rightarrow> RespParser" where
  "Reset r p = startParseValue (p\<lparr>stack := drop (length (stack p) - 1) (stack p), rd := r\<rparr>)"

text \<open>\<^verbatim>\<open>NewParser\<close>: the options have Go's zero value.\<close>

definition NewParser :: "reader \<Rightarrow> RespParser" where
  "NewParser r =
     Reset r \<lparr>stack = [\<lparr>run = NoAction, result = VNil\<rparr>], BulkCaptureLimit = 0, rd = r\<rparr>"

text \<open>
  \<^verbatim>\<open>BulkArray\<close>: the type assertion \<^verbatim>\<open>p.Result().([]interface{})\<close> panics unless the
  result is a slice; \<^verbatim>\<open>out[i], _ = b.([]byte)\<close> leaves \<^verbatim>\<open>nil\<close> (here \<open>None\<close>) for an
  element that is not a byte slice.
\<close>

definition bulkOf :: "rval \<Rightarrow> string option" where
  "bulkOf b = (case b of VBytes bs \<Rightarrow> Some bs | _ \<Rightarrow> None)"

definition BulkArray :: "RespParser \<Rightarrow> error + string option list" where
  "BulkArray p =
     (case Result p of
        Inr (VArr res) \<Rightarrow> Inr (map bulkOf res)
      | _ \<Rightarrow> Inl Panic)"

subsection \<open>The caller: bytes arriving in chunks\<close>

text \<open>
  Modelled from the spec: the network layer, which is not among the sources, feeds the next
  bytes of the stream into the parser's reader.
\<close>

definition arrive :: "string \<Rightarrow> RespParser \<Rightarrow> RespParser" where
  "arrive bs p = p\<lparr>rd := feed bs (rd p)\<rparr>"

text \<open>
  Modelled from the spec: the caller's loop (sections 4.1 and 5), which is not among the
  sources. It calls \<^verbatim>\<open>Run\<close>; when \<^verbatim>\<open>Run\<close> reports that more data is needed, it waits
  for the next chunk and calls \<^verbatim>\<open>Run\<close> again; it stops at any other outcome.
\<close>

fun runChunks :: "RespParser \<Rightarrow> string list \<Rightarrow> error option \<times> RespParser" where
  "runChunks p [] = Run p"
| "runChunks p (c # cs) =
     (case Run p of
        (Some ErrShortRead, p') \<Rightarrow> runChunks (arrive c p') cs
      | r \<Rightarrow> r)"

text \<open>The first \<open>k\<close> frame invocations of \<^verbatim>\<open>Run\<close>'s loop, stopping at the first error.\<close>

fun steps :: "nat \<Rightarrow> RespParser \<Rightarrow> error option \<times> RespParser" where
  "steps 0 p = (None, p)"
| "steps (Suc k) p =
     (case step p of
        (None, p') \<Rightarrow> steps k p'
      | r \<Rightarrow> r)"

subsection \<open>The RESP wire format\<close>

text \<open>
  The values of the protocol and their encoding, following the spec's data model
  (section 3) and decode rules (section 4.2): a tag byte, then a line, a decimal length
  or count, and for a bulk string the payload and its terminator.
\<close>

datatype resp =
    RStatus string
  | RError string
  | RInteger int
  | RBulk string
  | RNullBulk
  | RArray "resp list"
  | RNullArray

fun showNat :: "nat \<Rightarrow> string" where
  "showNat n =
     (if n < 10 then [char_of (48 + n)]
      else showNat (n div 10) @ [char_of (48 + n mod 10)])"

definition showInt :: "int \<Rightarrow> string" where
  "showInt i = (if i < 0 then CHR ''-'' # showNat (nat (- i)) else showNat (nat i))"

fun encode :: "resp \<Rightarrow> string" where
  "encode (RStatus s) = tagStatus # s @ CRLF"
| "encode (RError s) = tagError # s @ CRLF"
| "encode (RInteger i) = tagInt # showInt i @ CRLF"
| "encode (RBulk b) = tagBulk # showInt (int (length b)) @ CRLF @ b @ CRLF"
| "encode RNullBulk = tagBulk # showInt (- 1) @ CRLF"
| "encode (RArray vs) = tagArray # showInt (int (length vs)) @ CRLF @ concat (map encode vs)"
| "encode RNullArray = tagArray # showInt (- 1) @ CRLF"

text \<open>
  The value the spec's data model assigns to a wire value under a capture limit: a bulk
  string over the limit is its length only, an absent bulk or array is nil.
\<close>

fun decoded :: "int \<Rightarrow> resp \<Rightarrow> rval" where
  "decoded lim (RStatus s) = VStr s"
| "decoded lim (RError s) = VErr s"
| "decoded lim (RInteger i) = VInt i"
| "decoded lim (RBulk b) = (if int (length b) \<le> lim then VBytes b else VInt (int (length b)))"
| "decoded lim RNullBulk = VNil"
| "decoded lim (RArray vs) = VArr (map (decoded lim) vs)"
| "decoded lim RNullArray = VNil"

text \<open>The number of arrays nested in a value.\<close>

fun depth :: "resp \<Rightarrow> nat" where
  "depth (RArray vs) = Suc (fold max (map depth vs) 0)"
| "depth _ = 0"

text \<open>
  The wire values within the parser's reach: lines without CR or LF, integers and lengths
  that fit Go's \<^verbatim>\<open>int\<close> (a skipped payload of \<open>n\<close> bytes needs \<open>n + 2\<close> to fit), and
  arrays with at least one element.
\<close>

fun wellFormed :: "resp \<Rightarrow> bool" where
  "wellFormed (RStatus s) = (CR \<notin> set s \<and> LF \<notin> set s)"
| "wellFormed (RError s) = (CR \<notin> set s \<and> LF \<notin> set s)"
| "wellFormed (RInteger i) = (minInt \<le> i \<and> i \<le> maxInt)"
| "wellFormed (RBulk b) = (int (length b) + 2 \<le> maxInt)"
| "wellFormed RNullBulk = True"
| "wellFormed (RArray vs) = (vs \<noteq> [] \<and> int (length vs) \<le> maxInt \<and> list_all wellFormed vs)"
| "wellFormed RNullArray = False"

text \<open>A parser created on an empty reader, with the capture limit set.\<close>

definition freshParser :: "int \<Rightarrow> RespParser" where
  "freshParser lim = (NewParser \<lparr>buf = [], pending = 0\<rparr>)\<lparr>BulkCaptureLimit := lim\<rparr>"

text \<open>\<open>nest k v\<close> wraps \<open>v\<close> in \<open>k\<close> one-element arrays.\<close>

fun nest :: "nat \<Rightarrow> resp \<Rightarrow> resp" where
  "nest 0 v = v"
| "nest (Suc k) v = RArray [nest k v]"

subsection \<open>Notation for states\<close>

abbreviation fr :: "action \<Rightarrow> rval \<Rightarrow> stackFrame" where
  "fr a v \<equiv> \<lparr>run = a, result = v\<rparr>"

abbreviation mk :: "stackFrame list \<Rightarrow> int \<Rightarrow> string \<Rightarrow> nat \<Rightarrow> RespParser" where
  "mk st lim b k \<equiv> \<lparr>stack = st, BulkCaptureLimit = lim, rd = \<lparr>buf = b, pending = k\<rparr>\<rparr>"

text \<open>
  A value frame on a stack longer than \<^verbatim>\<open>stackLimit\<close>: the state in which the closure of
  \<^verbatim>\<open>startParseValue\<close> returns \<^verbatim>\<open>RecursionLimitErr\<close>.
\<close>

definition overLimit :: "RespParser \<Rightarrow> bool" where
  "overLimit p =
     (case stack p of
        [] \<Rightarrow> False
      | f # _ \<Rightarrow> run f = ParseValue \<and> stackLimit < int (length (stack p)))"

section \<open>Basic facts about the run loop\<close>

declare Run.simps [simp del]

lemmas start_defs = startParseValue_def startParseSimpleString_def
      startParseInt_def startParseBulk_def startParseBulkN_def startParseArray_def
      startParseNArrayFields_def

lemma Run_done: "length (stack p) = 1 \<Longrightarrow> Run p = (None, p)"
  by (simp add: Run.simps)

lemma Run_step: "length (stack p) \<noteq> 1 \<Longrightarrow> step p = (None, p') \<Longrightarrow> Run p = Run p'"
  by (subst Run.simps) simp

lemma Run_error: "length (stack p) \<noteq> 1 \<Longrightarrow> step p = (Some e, p') \<Longrightarrow> Run p = (Some e, p')"
  by (subst Run.simps) simp

subsection \<open>The reader when more bytes arrive\<close>

lemma feed_Nil [simp]: "feed [] r = r"
  by (simp add: feed_def)

lemma feed_append: "feed (a @ b) r = feed b (feed a r)"
  by (simp add: feed_def)

lemma splitLine_append:
  "splitLine b = Some (l, t) \<Longrightarrow> splitLine (b @ c) = Some (l, t @ c)"
  by (induction b arbitrary: l rule: splitLine.induct) (auto split: if_splits option.splits)

lemma ReadLine_feed:
  "ReadLine r = (Inr l, r') \<Longrightarrow> ReadLine (feed c r) = (Inr l, feed c r')"
  by (auto simp: ReadLine_def feed_def splitLine_append split: option.splits)

lemma ReadN_feed:
  "ReadN n r = ((out, None), r') \<Longrightarrow> ReadN n (feed c r) = ((out, None), feed c r')"
  by (auto simp: ReadN_def feed_def split: if_splits)

lemma ReadN_not_short: "ReadN n r = ((out, Some e), r') \<Longrightarrow> e = ErrShortRead"
  by (auto simp: ReadN_def split: if_splits)

lemma Discard_feed: "Discard n (feed c r) = feed c (Discard n r)"
  by (auto simp: Discard_def feed_def add.commute)

subsection \<open>Frames when more bytes arrive\<close>

lemma arrive_simps [simp]:
  "stack (arrive c p) = stack p"
  "BulkCaptureLimit (arrive c p) = BulkCaptureLimit p"
  "rd (arrive c p) = feed c (rd p)"
  "Result (arrive c p) = Result p"
  by (simp_all add: arrive_def Result_def)

lemma arrive_Nil [simp]: "arrive [] p = p"
  by (simp add: arrive_def)

lemma arrive_append: "arrive (a @ b) p = arrive b (arrive a p)"
  by (simp add: arrive_def feed_append)

lemma rd_simps [simp]:
  "rd (pop v p) = rd p" "rd (push a p) = rd p" "rd (setTopResult v p) = rd p"
  "Result (p\<lparr>rd := r\<rparr>) = Result p"
  "pop v (p\<lparr>rd := r\<rparr>) = (pop v p)\<lparr>rd := r\<rparr>"
  "push a (p\<lparr>rd := r\<rparr>) = (push a p)\<lparr>rd := r\<rparr>"
  "setTopResult v (p\<lparr>rd := r\<rparr>) = (setTopResult v p)\<lparr>rd := r\<rparr>"
  "BulkCaptureLimit (pop v p) = BulkCaptureLimit p"
  by (simp_all add: Result_def pop_def push_def setTopResult_def split: list.splits)

lemma value_arrive:
  "runParseValue p = (e, p') \<Longrightarrow> e \<noteq> Some ErrShortRead \<Longrightarrow>
   runParseValue (arrive c p) = (e, arrive c p')"
  by (auto simp: runParseValue_def Let_def start_defs ReadN_def feed_def arrive_def
      split: if_splits prod.splits option.splits list.splits)

lemma string_arrive:
  "runParseSimpleString b p = (e, p') \<Longrightarrow> e \<noteq> Some ErrShortRead \<Longrightarrow>
   runParseSimpleString b (arrive c p) = (e, arrive c p')"
  by (auto simp: runParseSimpleString_def ReadLine_def splitLine_append feed_def arrive_def
      split: if_splits prod.splits option.splits)

lemma int_arrive:
  "runParseInt p = (e, p') \<Longrightarrow> e \<noteq> Some ErrShortRead \<Longrightarrow>
   runParseInt (arrive c p) = (e, arrive c p')"
  by (auto simp: runParseInt_def ReadLine_def splitLine_append feed_def arrive_def
      split: if_splits prod.splits option.splits sum.splits)

lemma bulk_arrive:
  "runParseBulk p = (e, p') \<Longrightarrow> runParseBulk (arrive c p) = (e, arrive c p')"
  by (auto simp: runParseBulk_def Let_def start_defs Discard_feed arrive_def
      split: if_splits sum.splits rval.splits)

lemma bulkN_arrive:
  "runParseBulkN acc n p = (e, p') \<Longrightarrow> e \<noteq> Some ErrShortRead \<Longrightarrow>
   runParseBulkN acc n (arrive c p) = (e, arrive c p')"
  by (auto simp: runParseBulkN_def Let_def start_defs Discard_feed arrive_def
      dest: ReadN_feed[where c=c] ReadN_not_short
      split: if_splits prod.splits option.splits)

lemma array_arrive:
  "runParseArray p = (e, p') \<Longrightarrow> runParseArray (arrive c p) = (e, arrive c p')"
  by (auto simp: runParseArray_def Let_def start_defs arrive_def
      split: if_splits sum.splits rval.splits)

lemma fields_arrive:
  "runParseNArrayFields n p = (e, p') \<Longrightarrow> runParseNArrayFields n (arrive c p) = (e, arrive c p')"
  by (auto simp: runParseNArrayFields_def Let_def start_defs arrive_def
      split: if_splits list.splits rval.splits)

lemma step_arrive:
  "step p = (e, p') \<Longrightarrow> e \<noteq> Some ErrShortRead \<Longrightarrow> step (arrive c p) = (e, arrive c p')"
  unfolding step_def
  by (auto simp: value_arrive string_arrive int_arrive bulk_arrive bulkN_arrive array_arrive
      fields_arrive split: list.splits action.splits)


subsection \<open>Resuming after a short read\<close>

lemma step_stack2: "step p = (e, p') \<Longrightarrow> e \<noteq> Some Panic \<Longrightarrow> \<exists>f g rest. stack p = f # g # rest"
  by (auto simp: step_def split: list.splits)

lemma value_short: "runParseValue p = (Some ErrShortRead, p') \<Longrightarrow> p' = p"
  by (auto simp: runParseValue_def Let_def ReadN_def split: if_splits list.splits)

lemma string_short: "runParseSimpleString b p = (Some ErrShortRead, p') \<Longrightarrow> p' = p"
  by (auto simp: runParseSimpleString_def ReadLine_def split: if_splits option.splits)

lemma int_short: "runParseInt p = (Some ErrShortRead, p') \<Longrightarrow> p' = p"
  by (auto simp: runParseInt_def ReadLine_def split: if_splits option.splits sum.splits)

lemma bulk_not_short: "runParseBulk p \<noteq> (Some ErrShortRead, p')"
  by (auto simp: runParseBulk_def Let_def split: if_splits sum.splits rval.splits)

lemma array_not_short: "runParseArray p \<noteq> (Some ErrShortRead, p')"
  by (auto simp: runParseArray_def Let_def split: if_splits sum.splits rval.splits)

lemma fields_not_short: "runParseNArrayFields n p \<noteq> (Some ErrShortRead, p')"
  by (auto simp: runParseNArrayFields_def Let_def split: if_splits list.splits rval.splits)

text \<open>The state a payload frame leaves on a short read.\<close>

lemma bulkN_short:
  assumes "stack p = f # g # rest" "runParseBulkN acc n p = (Some ErrShortRead, p')"
  shows "int (length (buf (rd p))) < n \<and>
         p' = p\<lparr>stack := \<lparr>run = ParseBulkN (acc @ buf (rd p)) (n - int (length (buf (rd p)))),
                            result = VNil\<rparr> # g\<lparr>result := VNil\<rparr> # rest,
                 rd := (rd p)\<lparr>buf := []\<rparr>\<rparr>"
  using assms
  by (auto simp: runParseBulkN_def Let_def ReadN_def Discard_def startParseBulkN_def push_def
      pop_def split: if_splits)

lemma bulkN_resume:
  assumes st: "stack p = f # g # rest" and f: "run f = ParseBulkN acc n"
    and sh: "runParseBulkN acc n p = (Some ErrShortRead, p')"
  shows "step (arrive c p') = step (arrive c p)"
proof -
  let ?b = "buf (rd p)"
  let ?d = "drop (pending (rd p)) c"
  from bulkN_short[OF st sh]
  have lt: "int (length ?b) < n"
    and p': "p' = p\<lparr>stack := \<lparr>run = ParseBulkN (acc @ ?b) (n - int (length ?b)),
                            result = VNil\<rparr> # g\<lparr>result := VNil\<rparr> # rest,
                 rd := (rd p)\<lparr>buf := []\<rparr>\<rparr>"
    by simp_all
  have l: "step (arrive c p) = runParseBulkN acc n (arrive c p)"
    using st f by (simp add: step_def)
  have r: "step (arrive c p') =
           runParseBulkN (acc @ ?b) (n - int (length ?b)) (arrive c p')"
    by (simp add: step_def p')
  show ?thesis
  proof (cases "n \<le> int (length ?b) + int (length ?d)")
    case True
    then show ?thesis
      unfolding l r using lt st
      by (simp add: p' runParseBulkN_def ReadN_def feed_def Let_def pop_def arrive_def
          nat_diff_distrib')
  next
    case False
    then show ?thesis
      unfolding l r using lt st
      by (simp add: p' runParseBulkN_def ReadN_def feed_def Let_def pop_def arrive_def
          Discard_def startParseBulkN_def push_def)
  qed
qed

lemma step_resume:
  assumes "step p = (Some ErrShortRead, p')"
  shows "step (arrive c p') = step (arrive c p)"
proof -
  from step_stack2[OF assms] obtain f g rest where st: "stack p = f # g # rest"
    by auto
  show ?thesis
  proof (cases "run f")
    case (ParseBulkN acc n)
    with assms st have "runParseBulkN acc n p = (Some ErrShortRead, p')"
      by (simp add: step_def)
    from bulkN_resume[OF st ParseBulkN this] show ?thesis .
  qed (use assms st in \<open>auto simp: step_def dest: value_short string_short int_short
        simp: bulk_not_short array_not_short fields_not_short\<close>)
qed

lemma step_short_stack: "step p = (Some ErrShortRead, p') \<Longrightarrow> length (stack p') = length (stack p)"
  by (auto simp: step_def dest: value_short string_short int_short bulkN_short
      simp: bulk_not_short array_not_short fields_not_short split: list.splits action.splits)

lemma Run_unfold_step:
  "length (stack p) \<noteq> 1 \<Longrightarrow> Run p = (case step p of (Some e, p') \<Rightarrow> (Some e, p') | (None, p') \<Rightarrow> Run p')"
  by (subst Run.simps) simp

lemma Run_resume_step:
  assumes "step p = (Some ErrShortRead, p')" "length (stack p) \<noteq> 1"
  shows "Run (arrive c p') = Run (arrive c p)"
proof -
  have "length (stack (arrive c p')) \<noteq> 1" "length (stack (arrive c p)) \<noteq> 1"
    using assms step_short_stack[OF assms(1)] by simp_all
  then show ?thesis
    by (simp add: Run_unfold_step step_resume[OF assms(1)])
qed

text \<open>
  A run that stops for want of data, resumed when more bytes have arrived, does what a run
  started with all the bytes does.
\<close>

lemma Run_resume:
  "fst (Run p) = Some ErrShortRead \<Longrightarrow> Run (arrive c (snd (Run p))) = Run (arrive c p)"
proof (induction p rule: Run.induct)
  case (1 p)
  show ?case
  proof (cases "length (stack p) = 1")
    case True
    with "1.prems" show ?thesis by (simp add: Run_done)
  next
    case False
    obtain e p' where sp: "step p = (e, p')" by (cases "step p")
    show ?thesis
    proof (cases e)
      case None
      with sp False have eq: "Run p = Run p'" by (simp add: Run_step)
      from None sp have "step (arrive c p) = (None, arrive c p')"
        by (simp add: step_arrive)
      with False have "Run (arrive c p) = Run (arrive c p')"
        by (simp add: Run_step)
      moreover have "Run (arrive c (snd (Run p'))) = Run (arrive c p')"
        using "1.IH"[OF False sp[symmetric, unfolded None]] "1.prems" eq by simp
      ultimately show ?thesis by (simp add: eq)
    next
      case (Some err)
      with sp False have eq: "Run p = (Some err, p')" by (simp add: Run_error)
      with "1.prems" have "err = ErrShortRead" by simp
      with sp Some False show ?thesis
        by (simp add: eq Run_resume_step)
    qed
  qed
qed

text \<open>A run that ends otherwise ends the same way when more bytes are already there.\<close>

lemma Run_arrive:
  "fst (Run p) \<noteq> Some ErrShortRead \<Longrightarrow> Run (arrive c p) = (fst (Run p), arrive c (snd (Run p)))"
proof (induction p rule: Run.induct)
  case (1 p)
  show ?case
  proof (cases "length (stack p) = 1")
    case True
    then show ?thesis by (simp add: Run_done)
  next
    case False
    obtain e p' where sp: "step p = (e, p')" by (cases "step p")
    show ?thesis
    proof (cases e)
      case None
      with sp False have eq: "Run p = Run p'" by (simp add: Run_step)
      from None sp have "step (arrive c p) = (None, arrive c p')"
        by (simp add: step_arrive)
      with False have "Run (arrive c p) = Run (arrive c p')"
        by (simp add: Run_step)
      with "1.IH"[OF False sp[symmetric, unfolded None]] "1.prems" eq show ?thesis by simp
    next
      case (Some err)
      with sp False have eq: "Run p = (Some err, p')" by (simp add: Run_error)
      with "1.prems" have ne: "Some err \<noteq> Some ErrShortRead" by simp
      from step_arrive[OF sp[unfolded Some] ne, of c] False
      show ?thesis by (simp add: eq Run_error)
    qed
  qed
qed

text \<open>Feeding the chunks one by one, resuming after each short read, against one run on all the bytes.\<close>

lemma runChunks_concat:
  "fst (runChunks p cs) = fst (Run (arrive (concat cs) p)) \<and>
   stack (snd (runChunks p cs)) = stack (snd (Run (arrive (concat cs) p)))"
proof (induction cs arbitrary: p)
  case Nil
  show ?case by simp
next
  case (Cons c cs)
  obtain e p' where rp: "Run p = (e, p')" by (cases "Run p")
  show ?case
  proof (cases "e = Some ErrShortRead")
    case True
    with rp have "runChunks p (c # cs) = runChunks (arrive c p') cs" by simp
    moreover have "Run (arrive (concat (c # cs)) p') = Run (arrive (concat (c # cs)) p)"
      using Run_resume[of p "concat (c # cs)"] rp True by simp
    ultimately show ?thesis
      using Cons.IH[of "arrive c p'"] by (simp add: arrive_append)
  next
    case False
    with rp have "runChunks p (c # cs) = (e, p')"
      by (auto split: option.splits error.splits)
    moreover have "Run (arrive (concat (c # cs)) p) = (e, arrive (concat (c # cs)) p')"
      using Run_arrive[of p "concat (c # cs)"] rp False by simp
    ultimately show ?thesis by simp
  qed
qed


text \<open>An error that \<^verbatim>\<open>Run\<close> returns is the error of a frame it invoked.\<close>

lemma Run_error_from_step:
  "fst (Run p) = Some e \<Longrightarrow> \<exists>k q. steps k p = (None, q) \<and> step q = Run p"
proof (induction p rule: Run.induct)
  case (1 p)
  show ?case
  proof (cases "length (stack p) = 1")
    case True
    with "1.prems" show ?thesis by (simp add: Run_done)
  next
    case False
    obtain e' p' where sp: "step p = (e', p')" by (cases "step p")
    show ?thesis
    proof (cases e')
      case None
      with sp False have eq: "Run p = Run p'" by (simp add: Run_step)
      with "1.IH"[OF False sp[symmetric, unfolded None]] "1.prems"
      obtain k q where "steps k p' = (None, q)" "step q = Run p'" by auto
      with sp None eq have "steps (Suc k) p = (None, q) \<and> step q = Run p" by simp
      then show ?thesis by blast
    next
      case (Some err)
      with sp False have "Run p = step p" by (simp add: Run_error)
      then have "steps 0 p = (None, p) \<and> step p = Run p" by simp
      then show ?thesis by blast
    qed
  qed
qed


lemma runChunks_stops:
  "fst (Run p) \<noteq> Some ErrShortRead \<Longrightarrow> runChunks p cs = Run p"
  by (cases cs; cases "Run p") (auto split: option.splits error.splits)

subsection \<open>Decimal numbers\<close>

declare showNat.simps [simp del]

lemma of_char_digit: "d < 10 \<Longrightarrow> (of_char (char_of (48 + d :: nat)) :: nat) = 48 + d"
  by (simp add: of_char_of)

lemma isDigit_digit: "d < 10 \<Longrightarrow> isDigit (char_of (48 + d :: nat))"
  by (simp add: isDigit_def of_char_digit)

lemma of_char_digit_int: "d < 10 \<Longrightarrow> (of_char (char_of (48 + d :: nat)) :: int) = 48 + int d"
proof -
  assume "d < 10"
  then have "int (of_char (char_of (48 + d))) = int (48 + d)"
    by (simp only: of_char_digit)
  moreover have "(of_char (char_of (48 + d)) :: int) = int (of_char (char_of (48 + d)))"
    by (rule of_nat_of_char [symmetric])
  ultimately show ?thesis
    by simp
qed

lemma parseUint_snoc:
  "parseUint n (xs @ [c]) =
     (case parseUint n xs of
        Inl e \<Rightarrow> Inl e
      | Inr m \<Rightarrow>
          if \<not> isDigit c then Inl ErrSyntax
          else if 2 ^ 64 - 1 < 10 * m + ((of_char c :: int) - 48) then Inl ErrRange
          else Inr (10 * m + ((of_char c :: int) - 48)))"
  by (induction xs arbitrary: n) (simp_all add: Let_def)

lemma parseUint_showNat: "int n < 2 ^ 64 \<Longrightarrow> parseUint 0 (showNat n) = Inr (int n)"
proof (induction n rule: showNat.induct)
  case (1 n)
  show ?case
  proof (cases "n < 10")
    case True
    with "1.prems" show ?thesis
      by (subst showNat.simps) (simp add: isDigit_digit of_char_digit_int)
  next
    case False
    have "int (n div 10) < 2 ^ 64"
      using "1.prems" by (simp add: zdiv_int) 
    with 1 False have "parseUint 0 (showNat (n div 10)) = Inr (int (n div 10))"
      by simp
    moreover have "10 * int (n div 10) + int (n mod 10) = int n"
      by (simp add: zdiv_int zmod_int)
    ultimately show ?thesis
      using False "1.prems"
      by (subst showNat.simps) (simp add: parseUint_snoc isDigit_digit of_char_digit_int)
  qed
qed

lemma digits_showNat: "list_all isDigit (showNat n)"
proof (induction n rule: showNat.induct)
  case (1 n)
  then show ?case
    by (subst showNat.simps) (simp add: isDigit_digit)
qed

lemma showNat_not_Nil: "showNat n \<noteq> []"
  by (subst showNat.simps) simp

lemma isDigit_signs: "\<not> isDigit (CHR ''-'')" "\<not> isDigit (CHR ''+'')" "\<not> isDigit CR" "\<not> isDigit LF"
  by (simp_all add: isDigit_def CR_def LF_def)

lemma hd_showNat: "hd (showNat n) \<noteq> CHR ''-''" "hd (showNat n) \<noteq> CHR ''+''"
  using digits_showNat[of n] showNat_not_Nil[of n] isDigit_signs
  by (cases "showNat n"; auto)+

lemma Atoi_showInt:
  assumes "minInt \<le> i" "i \<le> maxInt"
  shows "Atoi (showInt i) = Inr i"
proof (cases "i < 0")
  case True
  then have "int (nat (- i)) < 2 ^ 64"
    using assms by (simp add: minInt_def)
  from parseUint_showNat[OF this] True assms show ?thesis
    by (simp add: Atoi_def showInt_def Let_def showNat_not_Nil minInt_def)
next
  case False
  then have "int (nat i) < 2 ^ 64"
    using assms by (simp add: maxInt_def)
  from parseUint_showNat[OF this] False assms hd_showNat[of "nat i"] show ?thesis
    by (simp add: Atoi_def showInt_def Let_def showNat_not_Nil maxInt_def)
qed

lemma showInt_no_CR: "CR \<notin> set (showInt i)"
  using digits_showNat isDigit_signs
  by (auto simp: showInt_def list_all_iff CR_def)

lemma splitLine_line: "CR \<notin> set s \<Longrightarrow> splitLine (s @ CRLF @ t) = Some (s, t)"
proof (induction s)
  case Nil
  show ?case by (simp add: CRLF_def)
next
  case (Cons a s)
  then show ?case by (cases s) (auto simp: CRLF_def)
qed


subsection \<open>What each frame does on the bytes of a well-formed value\<close>

lemmas frame_defs = step_def pop_def push_def Result_def setTopResult_def Let_def
  startParseValue_def startParseSimpleString_def startParseInt_def startParseBulk_def
  startParseBulkN_def startParseArray_def startParseNArrayFields_def

lemma step_ParseValue:
  assumes "length rest + 2 \<le> 8"
  shows "step (mk (fr ParseValue x # g # rest) lim (c # bs) k) =
     (if c = tagStatus
      then (None, mk (fr (ParseSimpleString False) VNil # g\<lparr>result := VNil\<rparr> # rest) lim bs k)
      else if c = tagError
      then (None, mk (fr (ParseSimpleString True) VNil # g\<lparr>result := VNil\<rparr> # rest) lim bs k)
      else if c = tagInt
      then (None, mk (fr ParseInt VNil # g\<lparr>result := VNil\<rparr> # rest) lim bs k)
      else if c = tagBulk
      then (None, mk (fr ParseInt VNil # fr ParseBulk VNil # g\<lparr>result := VNil\<rparr> # rest) lim bs k)
      else if c = tagArray
      then (None, mk (fr ParseInt VNil # fr ParseArray VNil # g\<lparr>result := VNil\<rparr> # rest) lim bs k)
      else (Some ProtocolErr, mk (g\<lparr>result := VNil\<rparr> # rest) lim bs k))"
  using assms
  by (simp add: frame_defs runParseValue_def stackLimit_def ReadN_def)

lemma step_ParseValue_limit:
  assumes "stack p = f # g # rest" "run f = ParseValue" "8 < length rest + 2"
  shows "step p = (Some RecursionLimitErr, p)"
  using assms by (simp add: step_def runParseValue_def stackLimit_def)

lemma step_ParseSimpleString:
  assumes "CR \<notin> set s"
  shows "step (mk (fr (ParseSimpleString b) x # g # rest) lim (s @ CRLF @ t) k) =
     (None, mk (g\<lparr>result := (if b then VErr s else VStr s)\<rparr> # rest) lim t k)"
  using assms
  by (simp add: frame_defs runParseSimpleString_def ReadLine_def splitLine_line)

lemma step_ParseInt:
  assumes "CR \<notin> set s" "Atoi s = Inr i"
  shows "step (mk (fr ParseInt x # g # rest) lim (s @ CRLF @ t) k) =
     (None, mk (g\<lparr>result := VInt i\<rparr> # rest) lim t k)"
  using assms
  by (simp add: frame_defs runParseInt_def ReadLine_def splitLine_line)

lemma wrapInt_id: "minInt \<le> x \<Longrightarrow> x \<le> maxInt \<Longrightarrow> wrapInt x = x"
  by (simp add: wrapInt_def minInt_def maxInt_def)

lemma step_ParseBulk:
  shows "step (mk (fr ParseBulk (VInt n) # g # rest) lim b k) =
     (if n < 0 then (None, mk (g\<lparr>result := VNil\<rparr> # rest) lim b k)
      else if n \<le> lim
      then (None, mk (fr (ParseBulkN [] n) VNil # g\<lparr>result := VNil\<rparr> # rest) lim b k)
      else (None, (mk (g\<lparr>result := VInt n\<rparr> # rest) lim b k)
                    \<lparr>rd := Discard (wrapInt (n + 2)) \<lparr>buf = b, pending = k\<rparr>\<rparr>))"
  by (simp add: frame_defs runParseBulk_def)

lemma step_ParseBulkN_done:
  assumes "0 \<le> n" "n \<le> int (length b)"
  shows "step (mk (fr (ParseBulkN acc n) x # g # rest) lim b k) =
     (None, (mk (g\<lparr>result := VBytes (acc @ take (nat n) b)\<rparr> # rest) lim b k)
              \<lparr>rd := Discard 2 \<lparr>buf = drop (nat n) b, pending = k\<rparr>\<rparr>)"
  using assms by (simp add: frame_defs runParseBulkN_def ReadN_def)

lemma step_ParseArray:
  assumes "0 \<le> n"
  shows "step (mk (fr ParseArray (VInt n) # g # rest) lim b k) =
     (None, mk (fr ParseValue VNil # fr (ParseNArrayFields n) VNil # g\<lparr>result := VArr []\<rparr> # rest)
              lim b k)"
  using assms by (simp add: frame_defs runParseArray_def)

lemma step_ParseNArrayFields:
  assumes "result g = VArr xs"
  shows "step (mk (fr (ParseNArrayFields n) x # g # rest) lim b k) =
     (None, if 1 < n
            then mk (fr ParseValue VNil # fr (ParseNArrayFields (n - 1)) VNil #
                     g\<lparr>result := VArr (xs @ [x])\<rparr> # rest) lim b k
            else mk (g\<lparr>result := VArr (xs @ [x])\<rparr> # rest) lim b k)"
  using assms by (simp add: frame_defs runParseNArrayFields_def)


subsection \<open>Parsing a well-formed value in one run\<close>

lemma Run_step2:
  "step (mk (f # g # rest) lim b k) = (None, p') \<Longrightarrow> Run (mk (f # g # rest) lim b k) = Run p'"
  by (rule Run_step) simp_all

lemma Run_error2:
  "step (mk (f # g # rest) lim b k) = (Some e, p') \<Longrightarrow>
   Run (mk (f # g # rest) lim b k) = (Some e, p')"
  by (rule Run_error) simp_all

lemma tags_distinct [simp]:
  "tagError \<noteq> tagStatus" "tagInt \<noteq> tagStatus" "tagInt \<noteq> tagError"
  "tagBulk \<noteq> tagStatus" "tagBulk \<noteq> tagError" "tagBulk \<noteq> tagInt"
  "tagArray \<noteq> tagStatus" "tagArray \<noteq> tagError" "tagArray \<noteq> tagInt" "tagArray \<noteq> tagBulk"
  by (simp_all add: tagStatus_def tagError_def tagInt_def tagBulk_def tagArray_def)

lemma Run_status:
  assumes "CR \<notin> set s" "length rest + 2 \<le> 8"
  shows "Run (mk (fr ParseValue x # g # rest) lim (tagStatus # s @ CRLF @ t) k) =
         Run (mk (g\<lparr>result := VStr s\<rparr> # rest) lim t k)"
proof -
  have "Run (mk (fr ParseValue x # g # rest) lim (tagStatus # s @ CRLF @ t) k) =
        Run (mk (fr (ParseSimpleString False) VNil # g\<lparr>result := VNil\<rparr> # rest) lim (s @ CRLF @ t) k)"
    by (rule Run_step2) (use assms in \<open>simp add: step_ParseValue\<close>)
  also have "\<dots> = Run (mk (g\<lparr>result := VStr s\<rparr> # rest) lim t k)"
    by (rule Run_step2) (use assms in \<open>simp add: step_ParseSimpleString\<close>)
  finally show ?thesis .
qed

lemma Run_error_value:
  assumes "CR \<notin> set s" "length rest + 2 \<le> 8"
  shows "Run (mk (fr ParseValue x # g # rest) lim (tagError # s @ CRLF @ t) k) =
         Run (mk (g\<lparr>result := VErr s\<rparr> # rest) lim t k)"
proof -
  have "Run (mk (fr ParseValue x # g # rest) lim (tagError # s @ CRLF @ t) k) =
        Run (mk (fr (ParseSimpleString True) VNil # g\<lparr>result := VNil\<rparr> # rest) lim (s @ CRLF @ t) k)"
    by (rule Run_step2) (use assms in \<open>simp add: step_ParseValue\<close>)
  also have "\<dots> = Run (mk (g\<lparr>result := VErr s\<rparr> # rest) lim t k)"
    by (rule Run_step2) (use assms in \<open>simp add: step_ParseSimpleString\<close>)
  finally show ?thesis .
qed

lemma Run_number:
  assumes "minInt \<le> i" "i \<le> maxInt"
  shows "Run (mk (fr ParseInt x # g # rest) lim (showInt i @ CRLF @ t) k) =
         Run (mk (g\<lparr>result := VInt i\<rparr> # rest) lim t k)"
  by (rule Run_step2) (use assms in \<open>simp add: step_ParseInt showInt_no_CR Atoi_showInt\<close>)

lemma Run_integer:
  assumes "minInt \<le> i" "i \<le> maxInt" "length rest + 2 \<le> 8"
  shows "Run (mk (fr ParseValue x # g # rest) lim (tagInt # showInt i @ CRLF @ t) k) =
         Run (mk (g\<lparr>result := VInt i\<rparr> # rest) lim t k)"
proof -
  have "Run (mk (fr ParseValue x # g # rest) lim (tagInt # showInt i @ CRLF @ t) k) =
        Run (mk (fr ParseInt VNil # g\<lparr>result := VNil\<rparr> # rest) lim (showInt i @ CRLF @ t) k)"
    by (rule Run_step2) (use assms in \<open>simp add: step_ParseValue\<close>)
  also have "\<dots> = Run (mk (g\<lparr>result := VInt i\<rparr> # rest) lim t k)"
    using Run_number[OF assms(1,2), of VNil "g\<lparr>result := VNil\<rparr>"] by simp
  finally show ?thesis .
qed

text \<open>The header of a bulk string: the tag and the length line.\<close>

lemma Run_bulk_header:
  assumes "minInt \<le> n" "n \<le> maxInt" "length rest + 2 \<le> 8"
  shows "Run (mk (fr ParseValue x # g # rest) lim (tagBulk # showInt n @ CRLF @ t) k) =
         Run (mk (fr ParseBulk (VInt n) # g\<lparr>result := VNil\<rparr> # rest) lim t k)"
proof -
  have "Run (mk (fr ParseValue x # g # rest) lim (tagBulk # showInt n @ CRLF @ t) k) =
        Run (mk (fr ParseInt VNil # fr ParseBulk VNil # g\<lparr>result := VNil\<rparr> # rest) lim
               (showInt n @ CRLF @ t) k)"
    by (rule Run_step2) (use assms in \<open>simp add: step_ParseValue\<close>)
  also have "\<dots> = Run (mk (fr ParseBulk (VInt n) # g\<lparr>result := VNil\<rparr> # rest) lim t k)"
    using Run_number[OF assms(1,2), of VNil "fr ParseBulk VNil"] by simp
  finally show ?thesis .
qed

lemma Run_null_bulk:
  assumes "length rest + 2 \<le> 8"
  shows "Run (mk (fr ParseValue x # g # rest) lim (tagBulk # showInt (- 1) @ CRLF @ t) k) =
         Run (mk (g\<lparr>result := VNil\<rparr> # rest) lim t k)"
proof -
  have "Run (mk (fr ParseValue x # g # rest) lim (tagBulk # showInt (- 1) @ CRLF @ t) k) =
        Run (mk (fr ParseBulk (VInt (- 1)) # g\<lparr>result := VNil\<rparr> # rest) lim t k)"
    by (rule Run_bulk_header) (use assms in \<open>simp_all add: minInt_def maxInt_def\<close>)
  also have "\<dots> = Run (mk (g\<lparr>result := VNil\<rparr> # rest) lim t k)"
    by (rule Run_step2) (simp add: step_ParseBulk)
  finally show ?thesis .
qed

lemma Run_bulk:
  assumes "int (length b) + 2 \<le> maxInt" "length rest + 2 \<le> 8"
  shows "Run (mk (fr ParseValue x # g # rest) lim
                (tagBulk # showInt (int (length b)) @ CRLF @ b @ CRLF @ t) 0) =
         Run (mk (g\<lparr>result := (if int (length b) \<le> lim then VBytes b
                                 else VInt (int (length b)))\<rparr> # rest) lim t 0)"
proof -
  let ?n = "int (length b)"
  have hdr: "Run (mk (fr ParseValue x # g # rest) lim (tagBulk # showInt ?n @ CRLF @ b @ CRLF @ t) 0) =
        Run (mk (fr ParseBulk (VInt ?n) # g\<lparr>result := VNil\<rparr> # rest) lim (b @ CRLF @ t) 0)"
    using assms by (intro Run_bulk_header) (simp_all add: minInt_def)
  show ?thesis
  proof (cases "?n \<le> lim")
    case True
    have "Run (mk (fr ParseBulk (VInt ?n) # g\<lparr>result := VNil\<rparr> # rest) lim (b @ CRLF @ t) 0) =
          Run (mk (fr (ParseBulkN [] ?n) VNil # g\<lparr>result := VNil\<rparr> # rest) lim (b @ CRLF @ t) 0)"
      by (rule Run_step2) (simp add: step_ParseBulk True)
    also have "\<dots> = Run (mk (g\<lparr>result := VBytes b\<rparr> # rest) lim t 0)"
      by (rule Run_step2) (simp add: step_ParseBulkN_done Discard_def CRLF_def)
    finally show ?thesis using hdr True by simp
  next
    case False
    have w: "wrapInt (?n + 2) = ?n + 2"
      using assms(1) by (intro wrapInt_id) (simp_all add: minInt_def)
    have "Run (mk (fr ParseBulk (VInt ?n) # g\<lparr>result := VNil\<rparr> # rest) lim (b @ CRLF @ t) 0) =
          Run (mk (g\<lparr>result := VInt ?n\<rparr> # rest) lim t 0)"
      by (rule Run_step2) (simp add: step_ParseBulk False w Discard_def CRLF_def nat_add_distrib)
    then show ?thesis using hdr False by simp
  qed
qed

lemma Run_array_header:
  assumes "0 \<le> n" "n \<le> maxInt" "length rest + 2 \<le> 8"
  shows "Run (mk (fr ParseValue x # g # rest) lim (tagArray # showInt n @ CRLF @ t) k) =
         Run (mk (fr ParseValue VNil # fr (ParseNArrayFields n) VNil # g\<lparr>result := VArr []\<rparr> # rest)
                lim t k)"
proof -
  have "Run (mk (fr ParseValue x # g # rest) lim (tagArray # showInt n @ CRLF @ t) k) =
        Run (mk (fr ParseInt VNil # fr ParseArray VNil # g\<lparr>result := VNil\<rparr> # rest) lim
               (showInt n @ CRLF @ t) k)"
    by (rule Run_step2) (use assms in \<open>simp add: step_ParseValue\<close>)
  also have "\<dots> = Run (mk (fr ParseArray (VInt n) # g\<lparr>result := VNil\<rparr> # rest) lim t k)"
    using assms Run_number[of n VNil "fr ParseArray VNil"] by (simp add: minInt_def)
  also have "\<dots> = Run (mk (fr ParseValue VNil # fr (ParseNArrayFields n) VNil #
                             g\<lparr>result := VArr []\<rparr> # rest) lim t k)"
    by (rule Run_step2) (use assms in \<open>simp add: step_ParseArray\<close>)
  finally show ?thesis .
qed


lemma depth_elem: "v \<in> set vs \<Longrightarrow> depth v \<le> fold max (map depth vs) 0"
proof -
  assume "v \<in> set vs"
  then have "depth v \<le> Max (set (0 # map depth vs))"
    by (intro Max_ge) auto
  then show ?thesis by (simp only: Max.set_eq_fold)
qed

text \<open>The elements of an array, given that each of them is parsed as the main lemma says.\<close>

lemma Run_elements:
  "(\<And>v x g rest t. v \<in> set vs \<Longrightarrow> length rest + 2 + depth v \<le> 8 \<Longrightarrow>
       Run (mk (fr ParseValue x # g # rest) lim (encode v @ t) 0) =
       Run (mk (g\<lparr>result := decoded lim v\<rparr> # rest) lim t 0)) \<Longrightarrow>
   vs \<noteq> [] \<Longrightarrow> result g = VArr xs \<Longrightarrow> \<forall>v\<in>set vs. length rest + 3 + depth v \<le> 8 \<Longrightarrow>
   Run (mk (fr ParseValue x # fr (ParseNArrayFields (int (length vs))) y # g # rest) lim
          (concat (map encode vs) @ t) 0) =
   Run (mk (g\<lparr>result := VArr (xs @ map (decoded lim) vs)\<rparr> # rest) lim t 0)"
proof (induction vs arbitrary: x y g xs)
  case Nil
  then show ?case by simp
next
  case (Cons v vs)
  let ?F = "fr (ParseNArrayFields (int (length (v # vs)))) y"
  let ?g' = "g\<lparr>result := VArr (xs @ [decoded lim v])\<rparr>"
  have "Run (mk (fr ParseValue x # ?F # g # rest) lim (concat (map encode (v # vs)) @ t) 0) =
        Run (mk (?F\<lparr>result := decoded lim v\<rparr> # g # rest) lim (concat (map encode vs) @ t) 0)"
    using Cons.prems(1)[of v "g # rest" x ?F "concat (map encode vs) @ t"] Cons.prems(4)
    by simp
  also have "\<dots> = Run (if vs \<noteq> []
        then mk (fr ParseValue VNil # fr (ParseNArrayFields (int (length vs))) VNil # ?g' # rest) lim
               (concat (map encode vs) @ t) 0
        else mk (?g' # rest) lim (concat (map encode vs) @ t) 0)"
    by (rule Run_step2) (use Cons.prems(3) in \<open>simp add: step_ParseNArrayFields\<close>)
  also have "\<dots> = Run (mk (g\<lparr>result := VArr (xs @ map (decoded lim) (v # vs))\<rparr> # rest) lim t 0)"
  proof (cases "vs = []")
    case True
    then show ?thesis by simp
  next
    case False
    have "Run (mk (fr ParseValue VNil # fr (ParseNArrayFields (int (length vs))) VNil # ?g' # rest) lim
               (concat (map encode vs) @ t) 0) =
          Run (mk (?g'\<lparr>result := VArr ((xs @ [decoded lim v]) @ map (decoded lim) vs)\<rparr> # rest) lim t 0)"
      using Cons.prems(1,4) by (intro Cons.IH) (simp_all add: False)
    with False show ?thesis by simp
  qed
  finally show ?case .
qed

text \<open>
  A value frame over the bytes of a well-formed value whose arrays fit under the stack limit
  leaves the decoded value in the slot of the frame below and consumes exactly those bytes.
\<close>

lemma Run_value:
  "wellFormed v \<Longrightarrow> length rest + 2 + depth v \<le> 8 \<Longrightarrow>
   Run (mk (fr ParseValue x # g # rest) lim (encode v @ t) 0) =
   Run (mk (g\<lparr>result := decoded lim v\<rparr> # rest) lim t 0)"
proof (induction v arbitrary: x g rest t)
  case (RStatus s)
  then show ?case by (simp add: Run_status)
next
  case (RError s)
  then show ?case by (simp add: Run_error_value)
next
  case (RInteger i)
  then show ?case by (simp add: Run_integer)
next
  case (RBulk b)
  then show ?case using Run_bulk[of b rest x g lim t] by simp
next
  case RNullBulk
  then show ?case by (simp add: Run_null_bulk)
next
  case (RArray vs)
  let ?n = "int (length vs)"
  have wf: "vs \<noteq> []" "?n \<le> maxInt" "\<forall>v\<in>set vs. wellFormed v"
    using RArray.prems(1) by (simp_all add: list_all_iff)
  have d: "\<forall>v\<in>set vs. length rest + 3 + depth v \<le> 8"
    using RArray.prems(2) depth_elem[of _ vs] by fastforce
  have len: "length rest + 2 \<le> 8"
    using RArray.prems(2) by simp
  have "Run (mk (fr ParseValue x # g # rest) lim (encode (RArray vs) @ t) 0) =
        Run (mk (fr ParseValue VNil # fr (ParseNArrayFields ?n) VNil # g\<lparr>result := VArr []\<rparr> # rest)
               lim (concat (map encode vs) @ t) 0)"
    using Run_array_header[of ?n rest x g lim "concat (map encode vs) @ t" 0] wf(2) len by simp
  also have "\<dots> = Run (mk (g\<lparr>result := VArr []\<rparr>\<lparr>result := VArr ([] @ map (decoded lim) vs)\<rparr> # rest) lim t 0)"
  proof (rule Run_elements)
    fix v :: resp and x :: rval and g :: stackFrame and rest :: "stackFrame list" and t :: string
    assume "v \<in> set vs" "length rest + 2 + depth v \<le> 8"
    then show "Run (mk (fr ParseValue x # g # rest) lim (encode v @ t) 0) =
               Run (mk (g\<lparr>result := decoded lim v\<rparr> # rest) lim t 0)"
      using RArray.IH[of v rest x g t] wf(3) by simp
  qed (use wf d in simp_all)
  finally show ?case by simp
next
  case RNullArray
  then show ?case by simp
qed


subsection \<open>A fresh parser on a single chunk\<close>

lemma freshParser_eq: "freshParser lim = mk [fr ParseValue VNil, fr NoAction VNil] lim [] 0"
  by (simp add: freshParser_def NewParser_def Reset_def startParseValue_def push_def)

lemma arrive_mk: "arrive bs (mk st lim b 0) = mk st lim (b @ bs) 0"
  by (simp add: arrive_def feed_def)

lemma Run_fresh:
  assumes "wellFormed v" "depth v \<le> 6"
  shows "Run (arrive (encode v) (freshParser lim)) = (None, mk [fr NoAction (decoded lim v)] lim [] 0)"
proof -
  have "Run (mk (fr ParseValue VNil # fr NoAction VNil # []) lim (encode v @ []) 0) =
        Run (mk ((fr NoAction VNil)\<lparr>result := decoded lim v\<rparr> # []) lim [] 0)"
    using assms by (intro Run_value) simp_all
  then show ?thesis
    by (simp add: freshParser_eq arrive_mk Run_done)
qed

text \<open>
  C1 (as amended). For every well-formed wire value (status and error lines without CR
  or LF, integers and lengths within Go's int, bulk strings, the absent bulk, arrays with
  at least one element) nested in at most six arrays, a run on its encoding delivered in
  one chunk returns no error, leaves the stack at depth 1 and the corresponding value in
  the root's slot, where a bulk string longer than the capture limit is represented by its
  length, and consumes exactly the encoding. In particular, with a capture limit of at
  least 3 the input \<^verbatim>\<open>*2\r\n$3\r\nfoo\r\n$3\r\nbar\r\n\<close> gives the array of the bulk values
  foo and bar in that order.
\<close>

theorem single_chunk_decodes_well_formed_values:
  "(wellFormed v \<and> depth v \<le> 6 \<longrightarrow>
      Run (arrive (encode v) (freshParser lim)) =
        (None, \<lparr>stack = [\<lparr>run = NoAction, result = decoded lim v\<rparr>], BulkCaptureLimit = lim,
                 rd = \<lparr>buf = [], pending = 0\<rparr>\<rparr>)) \<and>
   (3 \<le> lim \<longrightarrow>
      Run (arrive (''*2'' @ CRLF @ ''$3'' @ CRLF @ ''foo'' @ CRLF @ ''$3'' @ CRLF @ ''bar'' @ CRLF)
             (freshParser lim)) =
        (None, \<lparr>stack = [\<lparr>run = NoAction, result = VArr [VBytes ''foo'', VBytes ''bar'']\<rparr>],
                 BulkCaptureLimit = lim, rd = \<lparr>buf = [], pending = 0\<rparr>\<rparr>))"
proof (intro conjI impI)
  assume "wellFormed v \<and> depth v \<le> 6"
  then show "Run (arrive (encode v) (freshParser lim)) =
        (None, mk [fr NoAction (decoded lim v)] lim [] 0)"
    by (simp add: Run_fresh)
next
  assume lim: "3 \<le> lim"
  let ?v = "RArray [RBulk ''foo'', RBulk ''bar'']"
  have e: "encode ?v = ''*2'' @ CRLF @ ''$3'' @ CRLF @ ''foo'' @ CRLF @ ''$3'' @ CRLF @ ''bar'' @ CRLF"
    by code_simp
  have "wellFormed ?v" "depth ?v \<le> 6"
    by (simp_all add: maxInt_def)
  from Run_fresh[OF this, of lim] lim
  show "Run (arrive (''*2'' @ CRLF @ ''$3'' @ CRLF @ ''foo'' @ CRLF @ ''$3'' @ CRLF @ ''bar'' @ CRLF)
             (freshParser lim)) = (None, mk [fr NoAction (VArr [VBytes ''foo'', VBytes ''bar''])] lim [] 0)"
    unfolding e by simp
qed

text \<open>The theorem at a four-element array under capture limit 4, and at the example.\<close>

theorem single_chunk_witness:
  "wellFormed (RArray [RStatus ''OK'', RInteger (- 7), RBulk ''foobar'', RNullBulk]) \<and>
   depth (RArray [RStatus ''OK'', RInteger (- 7), RBulk ''foobar'', RNullBulk]) \<le> 6 \<and>
   Run (arrive (encode (RArray [RStatus ''OK'', RInteger (- 7), RBulk ''foobar'', RNullBulk]))
          (freshParser 4)) =
     (None, \<lparr>stack = [\<lparr>run = NoAction, result = VArr [VStr ''OK'', VInt (- 7), VInt 6, VNil]\<rparr>],
              BulkCaptureLimit = 4, rd = \<lparr>buf = [], pending = 0\<rparr>\<rparr>) \<and>
   (3::int) \<le> 4 \<and>
   Run (arrive (''*2'' @ CRLF @ ''$3'' @ CRLF @ ''foo'' @ CRLF @ ''$3'' @ CRLF @ ''bar'' @ CRLF)
          (freshParser 4)) =
     (None, \<lparr>stack = [\<lparr>run = NoAction, result = VArr [VBytes ''foo'', VBytes ''bar'']\<rparr>],
              BulkCaptureLimit = 4, rd = \<lparr>buf = [], pending = 0\<rparr>\<rparr>)"
proof -
  let ?v = "RArray [RStatus ''OK'', RInteger (- 7), RBulk ''foobar'', RNullBulk]"
  have h: "wellFormed ?v" "depth ?v \<le> 6"
    by (simp_all add: maxInt_def minInt_def CR_def LF_def)
  show ?thesis
    using h single_chunk_decodes_well_formed_values[of ?v 4] by simp
qed

text \<open>
  Valid encodings that do not decode: seven nested arrays run into the recursion limit, and
  an integer outside Go's int is a range error of the conversion.
\<close>

theorem single_chunk_counterexample:
  "fst (Run (arrive (''*1'' @ CRLF @ ''*1'' @ CRLF @ ''*1'' @ CRLF @ ''*1'' @ CRLF @ ''*1'' @ CRLF @
                    ''*1'' @ CRLF @ ''*1'' @ CRLF @ '':1'' @ CRLF) (freshParser 0))) =
     Some RecursionLimitErr \<and>
   fst (Run (arrive ('':9223372036854775808'' @ CRLF) (freshParser 0))) = Some (NumError ErrRange)"
  by code_simp


subsection \<open>Chunked delivery\<close>

text \<open>
  C2. Delivering the same bytes in any number of chunks, one byte at a time included, with
  every shortfall a need-more-data return of \<^verbatim>\<open>Run\<close> followed by a resumed \<^verbatim>\<open>Run\<close>, ends
  with the same outcome, the same stack and the same result as delivering them in a single
  chunk. This holds for every byte sequence, so for every valid encoding.
\<close>

theorem chunking_never_changes_the_result:
  "fst (runChunks p cs) = fst (runChunks p [concat cs]) \<and>
   stack (snd (runChunks p cs)) = stack (snd (runChunks p [concat cs])) \<and>
   Result (snd (runChunks p cs)) = Result (snd (runChunks p [concat cs])) \<and>
   fst (runChunks p (map (\<lambda>c. [c]) bs)) = fst (runChunks p [bs]) \<and>
   Result (snd (runChunks p (map (\<lambda>c. [c]) bs))) = Result (snd (runChunks p [bs]))"
proof -
  have one: "concat (map (\<lambda>c. [c]) bs) = bs"
    by (induction bs) simp_all
  have a: "fst (runChunks p xs) = fst (runChunks p [concat xs]) \<and>
           stack (snd (runChunks p xs)) = stack (snd (runChunks p [concat xs]))" for xs
    using runChunks_concat[of p xs] runChunks_concat[of p "[concat xs]"] by simp
  from a[of cs] a[of "map (\<lambda>c. [c]) bs"] show ?thesis
    by (simp add: one Result_def)
qed

subsection \<open>The recursion limit\<close>

lemma overLimit_step: "overLimit p \<Longrightarrow> step p = (Some RecursionLimitErr, p)"
  by (auto simp: overLimit_def step_def runParseValue_def stackLimit_def split: list.splits)

lemma overLimit_Run: "overLimit p \<Longrightarrow> Run p = (Some RecursionLimitErr, p)"
  by (rule Run_error) (auto simp: overLimit_step overLimit_def stackLimit_def split: list.splits)

lemma overLimit_arrive [simp]: "overLimit (arrive c p) = overLimit p"
  by (auto simp: overLimit_def split: list.splits)

lemma overLimit_mk:
  "8 < length rest + 2 \<Longrightarrow> overLimit (mk (fr ParseValue x # g # rest) lim b k)"
  by (simp add: overLimit_def stackLimit_def)

lemma Run_over_limit:
  assumes "8 < length rest + 2"
  shows "\<exists>p'. Run (mk (fr ParseValue x # g # rest) lim b k) = (Some RecursionLimitErr, p')
              \<and> overLimit p'"
  using overLimit_Run[OF overLimit_mk[OF assms]] overLimit_mk[OF assms] by blast

lemma deep_elem:
  assumes "vs \<noteq> []" "8 < n + fold max (map depth vs) 0"
  shows "\<exists>v\<in>set vs. 8 < n + depth v"
proof -
  have "Max (set (0 # map depth vs)) \<in> set (0 # map depth vs)"
    by (intro Max_in) simp_all
  then have "fold max (map depth vs) 0 \<in> set (0 # map depth vs)"
    by (simp only: Max.set_eq_fold)
  then consider "fold max (map depth vs) 0 = 0" | v where "v \<in> set vs" "fold max (map depth vs) 0 = depth v"
    by auto
  then show ?thesis
  proof cases
    case 1
    with assms show ?thesis by (cases vs) auto
  next
    case 2
    with assms show ?thesis by auto
  qed
qed

text \<open>The elements of an array of which one nests too deep.\<close>

lemma Run_elements_deep:
  "(\<And>v x g rest t. v \<in> set vs \<Longrightarrow> 8 < length rest + 2 + depth v \<Longrightarrow>
       \<exists>p'. Run (mk (fr ParseValue x # g # rest) lim (encode v @ t) 0) = (Some RecursionLimitErr, p')
            \<and> overLimit p') \<Longrightarrow>
   \<forall>v\<in>set vs. wellFormed v \<Longrightarrow> result g = VArr xs \<Longrightarrow>
   \<exists>v\<in>set vs. 8 < length rest + 3 + depth v \<Longrightarrow>
   \<exists>p'. Run (mk (fr ParseValue x # fr (ParseNArrayFields (int (length vs))) y # g # rest) lim
               (concat (map encode vs) @ t) 0) = (Some RecursionLimitErr, p') \<and> overLimit p'"
proof (induction vs arbitrary: x y g xs)
  case Nil
  then show ?case by simp
next
  case (Cons v vs)
  let ?F = "fr (ParseNArrayFields (int (length (v # vs)))) y"
  let ?g' = "g\<lparr>result := VArr (xs @ [decoded lim v])\<rparr>"
  show ?case
  proof (cases "8 < length rest + 3 + depth v")
    case True
    then show ?thesis
      using Cons.prems(1)[of v "g # rest" x ?F "concat (map encode vs) @ t"] by simp
  next
    case False
    with Cons.prems(4) have later: "\<exists>v\<in>set vs. 8 < length rest + 3 + depth v"
      by auto
    then have ne: "vs \<noteq> []" by auto
    have "Run (mk (fr ParseValue x # ?F # g # rest) lim (concat (map encode (v # vs)) @ t) 0) =
          Run (mk (?F\<lparr>result := decoded lim v\<rparr> # g # rest) lim (concat (map encode vs) @ t) 0)"
      using Run_value[of v "g # rest" x ?F lim "concat (map encode vs) @ t"] False Cons.prems(2)
      by simp
    also have "\<dots> = Run (mk (fr ParseValue VNil # fr (ParseNArrayFields (int (length vs))) VNil #
                               ?g' # rest) lim (concat (map encode vs) @ t) 0)"
      by (rule Run_step2) (use Cons.prems(3) ne in \<open>simp add: step_ParseNArrayFields\<close>)
    finally have eq: "Run (mk (fr ParseValue x # ?F # g # rest) lim (concat (map encode (v # vs)) @ t) 0) =
          Run (mk (fr ParseValue VNil # fr (ParseNArrayFields (int (length vs))) VNil #
                               ?g' # rest) lim (concat (map encode vs) @ t) 0)" .
    have "\<exists>p'. Run (mk (fr ParseValue VNil # fr (ParseNArrayFields (int (length vs))) VNil #
                               ?g' # rest) lim (concat (map encode vs) @ t) 0) =
                 (Some RecursionLimitErr, p') \<and> overLimit p'"
      using Cons.prems(1,2) later by (intro Cons.IH[where xs = "xs @ [decoded lim v]"]) simp_all
    with eq show ?thesis by simp
  qed
qed

text \<open>
  A value frame over the bytes of a well-formed value that nests beyond the stack limit:
  the run fails with the recursion limit error, in a state where a value frame is on top.
\<close>

lemma Run_value_deep:
  "wellFormed v \<Longrightarrow> 8 < length rest + 2 + depth v \<Longrightarrow>
   \<exists>p'. Run (mk (fr ParseValue x # g # rest) lim (encode v @ t) 0) = (Some RecursionLimitErr, p')
        \<and> overLimit p'"
proof (induction v arbitrary: x g rest t)
  case (RArray vs)
  let ?n = "int (length vs)"
  show ?case
  proof (cases "8 < length rest + 2")
    case True
    then show ?thesis
      by (rule Run_over_limit)
  next
    case False
    have wf: "vs \<noteq> []" "?n \<le> maxInt" "\<forall>v\<in>set vs. wellFormed v"
      using RArray.prems(1) by (simp_all add: list_all_iff)
    have "8 < (length rest + 3) + fold max (map depth vs) 0"
      using RArray.prems(2) by simp
    from deep_elem[OF wf(1) this] have d: "\<exists>v\<in>set vs. 8 < length rest + 3 + depth v" .
    have "Run (mk (fr ParseValue x # g # rest) lim (encode (RArray vs) @ t) 0) =
          Run (mk (fr ParseValue VNil # fr (ParseNArrayFields ?n) VNil # g\<lparr>result := VArr []\<rparr> # rest)
                 lim (concat (map encode vs) @ t) 0)"
      using Run_array_header[of ?n rest x g lim "concat (map encode vs) @ t" 0] wf(2) False by simp
    moreover have "\<exists>p'. Run (mk (fr ParseValue VNil # fr (ParseNArrayFields ?n) VNil #
                 g\<lparr>result := VArr []\<rparr> # rest) lim (concat (map encode vs) @ t) 0) =
               (Some RecursionLimitErr, p') \<and> overLimit p'"
    proof (rule Run_elements_deep)
      fix v :: resp and x :: rval and g :: stackFrame and rest :: "stackFrame list" and t :: string
      assume "v \<in> set vs" "8 < length rest + 2 + depth v"
      then show "\<exists>p'. Run (mk (fr ParseValue x # g # rest) lim (encode v @ t) 0) =
                   (Some RecursionLimitErr, p') \<and> overLimit p'"
        using RArray.IH[of v rest x g t] wf(3) by simp
    qed (use wf d in simp_all)
    ultimately show ?thesis by simp
  qed
qed (simp_all add: Run_over_limit)


lemma overLimit_stack: "stack p = stack q \<Longrightarrow> overLimit p = overLimit q"
  by (auto simp: overLimit_def split: list.splits)

lemma Run_fresh_deep:
  assumes "wellFormed v" "6 < depth v"
  shows "\<exists>p'. Run (arrive (encode v) (freshParser lim)) = (Some RecursionLimitErr, p') \<and> overLimit p'"
  using Run_value_deep[of v "[]" VNil "fr NoAction VNil" lim "[]"] assms
  by (simp add: freshParser_eq arrive_mk)

lemma step_RecursionLimitErr: "fst (step p) = Some RecursionLimitErr \<longleftrightarrow> overLimit p"
proof
  assume "overLimit p"
  then show "fst (step p) = Some RecursionLimitErr"
    by (simp add: overLimit_step)
next
  assume e: "fst (step p) = Some RecursionLimitErr"
  then have "step p = (Some RecursionLimitErr, snd (step p))"
    by (simp add: prod_eq_iff)
  from step_stack2[OF this] obtain f g rest where st: "stack p = f # g # rest"
    by auto
  show "overLimit p"
  proof (cases "run f")
    case ParseValue
    with st e show ?thesis
      by (auto simp: step_def runParseValue_def overLimit_def Let_def ReadN_def start_defs
          split: if_splits list.splits)
  next
    case (ParseSimpleString b)
    with st e show ?thesis
      by (auto simp: step_def runParseSimpleString_def ReadLine_def split: option.splits if_splits)
  next
    case ParseInt
    with st e show ?thesis
      by (auto simp: step_def runParseInt_def ReadLine_def split: option.splits sum.splits)
  next
    case ParseBulk
    with st e show ?thesis
      by (auto simp: step_def runParseBulk_def Let_def split: sum.splits rval.splits if_splits)
  next
    case (ParseBulkN acc n)
    with st e show ?thesis
      by (auto simp: step_def runParseBulkN_def Let_def ReadN_def split: if_splits)
  next
    case ParseArray
    with st e show ?thesis
      by (auto simp: step_def runParseArray_def Let_def split: sum.splits rval.splits if_splits)
  next
    case (ParseNArrayFields n)
    with st e show ?thesis
      by (auto simp: step_def runParseNArrayFields_def Let_def split: rval.splits if_splits)
  qed (use st e in \<open>simp add: step_def\<close>)
qed

lemma Run_RecursionLimitErr:
  assumes "fst (Run p) = Some RecursionLimitErr"
  shows "overLimit (snd (Run p))"
proof -
  from Run_error_from_step[OF assms] obtain k q where q: "step q = Run p"
    by blast
  with assms have "overLimit q"
    by (simp add: step_RecursionLimitErr[symmetric])
  from overLimit_step[OF this] q have "snd (Run p) = q"
    by (simp add: prod_eq_iff)
  with \<open>overLimit q\<close> show ?thesis
    by simp
qed

lemma runChunks_is_Run: "\<exists>q. runChunks p cs = Run q"
proof (induction cs arbitrary: p)
  case Nil
  show ?case by auto
next
  case (Cons c cs)
  obtain e p' where r: "Run p = (e, p')" by (cases "Run p")
  show ?case
  proof (cases "e = Some ErrShortRead")
    case True
    with r Cons.IH[of "arrive c p'"] show ?thesis by simp
  next
    case False
    with r have "runChunks p (c # cs) = Run p"
      by (intro runChunks_stops) simp
    then show ?thesis by blast
  qed
qed

text \<open>
  C7. Well-formed values nested in at most six arrays (a value frame then runs on a stack
  of at most \<^verbatim>\<open>stackLimit\<close> = 8 frames) parse successfully however the bytes are chunked.
  Any deeper nesting makes the run fail with the recursion limit error, however the bytes
  are chunked, with the value frame that is over the limit left on top. In every state a
  frame returns that error exactly when it is a value frame on a stack of more than 8
  frames, before it reads anything and leaving the state as it is; and whenever a chunked
  run on any bytes ends with that error, supplying more bytes and running again returns
  the same error.
\<close>

theorem nesting_up_to_the_ceiling_and_beyond:
  assumes "wellFormed v" "concat cs = encode v"
  shows "(depth v \<le> 6 \<longrightarrow>
            fst (runChunks (freshParser lim) cs) = None \<and>
            stack (snd (runChunks (freshParser lim) cs)) = [\<lparr>run = NoAction, result = decoded lim v\<rparr>]) \<and>
         (6 < depth v \<longrightarrow>
            fst (runChunks (freshParser lim) cs) = Some RecursionLimitErr \<and>
            overLimit (snd (runChunks (freshParser lim) cs))) \<and>
         (fst (step p) = Some RecursionLimitErr \<longleftrightarrow> overLimit p) \<and>
         (overLimit p \<longrightarrow> step p = (Some RecursionLimitErr, p)) \<and>
         (fst (runChunks p ds) = Some RecursionLimitErr \<longrightarrow>
            overLimit (snd (runChunks p ds)) \<and>
            (\<forall>bs. Run (arrive bs (snd (runChunks p ds))) =
               (Some RecursionLimitErr, arrive bs (snd (runChunks p ds)))))"
proof (intro conjI impI allI)
  let ?r = "runChunks (freshParser lim) cs"
  let ?one = "Run (arrive (encode v) (freshParser lim))"
  have same: "fst ?r = fst ?one" "stack (snd ?r) = stack (snd ?one)"
    using runChunks_concat[of "freshParser lim" cs] assms(2) by simp_all
  {
    assume "depth v \<le> 6"
    with assms(1) have "?one = (None, mk [fr NoAction (decoded lim v)] lim [] 0)"
      by (rule Run_fresh)
    with same show "fst ?r = None" "stack (snd ?r) = [fr NoAction (decoded lim v)]"
      by simp_all
  }
  {
    assume "6 < depth v"
    with assms(1) obtain p' where p': "?one = (Some RecursionLimitErr, p')" "overLimit p'"
      using Run_fresh_deep by blast
    with same show "fst ?r = Some RecursionLimitErr"
      by simp
    from p' same show "overLimit (snd ?r)"
      using overLimit_stack[of "snd ?r" p'] by simp
  }
  show "fst (step p) = Some RecursionLimitErr \<longleftrightarrow> overLimit p"
    by (rule step_RecursionLimitErr)
  {
    assume "overLimit p"
    then show "step p = (Some RecursionLimitErr, p)"
      by (rule overLimit_step)
  }
  {
    assume e: "fst (runChunks p ds) = Some RecursionLimitErr"
    obtain q where q: "runChunks p ds = Run q"
      using runChunks_is_Run by blast
    with e show o: "overLimit (snd (runChunks p ds))"
      using Run_RecursionLimitErr[of q] by simp
    fix bs
    from o show "Run (arrive bs (snd (runChunks p ds))) =
        (Some RecursionLimitErr, arrive bs (snd (runChunks p ds)))"
      by (intro overLimit_Run) simp
  }
qed

text \<open>
  The theorem at six nested arrays delivered in two chunks, and at seven nested arrays
  delivered in three.
\<close>

theorem nesting_witness:
  "wellFormed (nest 6 (RInteger 1)) \<and>
   concat [''*1'' @ CRLF @ ''*1'' @ CRLF @ ''*1'' @ CRLF @ ''*1'', CRLF @ ''*1'' @ CRLF @ ''*1'' @ CRLF @ '':1'' @ CRLF]
     = encode (nest 6 (RInteger 1)) \<and>
   depth (nest 6 (RInteger 1)) \<le> 6 \<and>
   fst (runChunks (freshParser 0)
         [''*1'' @ CRLF @ ''*1'' @ CRLF @ ''*1'' @ CRLF @ ''*1'', CRLF @ ''*1'' @ CRLF @ ''*1'' @ CRLF @ '':1'' @ CRLF])
     = None \<and>
   wellFormed (nest 7 (RInteger 1)) \<and>
   concat [''*1'' @ CRLF @ ''*1'' @ CRLF @ ''*1'' @ CRLF @ ''*'', ''1'' @ CRLF @ ''*1'' @ CRLF @ ''*1'' @ CRLF,
           ''*1'' @ CRLF @ '':1'' @ CRLF]
     = encode (nest 7 (RInteger 1)) \<and>
   6 < depth (nest 7 (RInteger 1)) \<and>
   fst (runChunks (freshParser 0)
         [''*1'' @ CRLF @ ''*1'' @ CRLF @ ''*1'' @ CRLF @ ''*'', ''1'' @ CRLF @ ''*1'' @ CRLF @ ''*1'' @ CRLF,
          ''*1'' @ CRLF @ '':1'' @ CRLF])
     = Some RecursionLimitErr"
proof -
  let ?c6 = "[''*1'' @ CRLF @ ''*1'' @ CRLF @ ''*1'' @ CRLF @ ''*1'', CRLF @ ''*1'' @ CRLF @ ''*1'' @ CRLF @ '':1'' @ CRLF]"
  let ?c7 = "[''*1'' @ CRLF @ ''*1'' @ CRLF @ ''*1'' @ CRLF @ ''*'', ''1'' @ CRLF @ ''*1'' @ CRLF @ ''*1'' @ CRLF,
           ''*1'' @ CRLF @ '':1'' @ CRLF]"
  have a: "wellFormed (nest 6 (RInteger 1))" by code_simp
  have b: "concat ?c6 = encode (nest 6 (RInteger 1))" by code_simp
  have c: "depth (nest 6 (RInteger 1)) \<le> 6" by code_simp
  have d: "wellFormed (nest 7 (RInteger 1))" by code_simp
  have e: "concat ?c7 = encode (nest 7 (RInteger 1))" by code_simp
  have f: "6 < depth (nest 7 (RInteger 1))" by code_simp
  have "fst (runChunks (freshParser 0) ?c6) = None"
    using nesting_up_to_the_ceiling_and_beyond[OF a b, where lim = 0] c by blast
  moreover have "fst (runChunks (freshParser 0) ?c7) = Some RecursionLimitErr"
    using nesting_up_to_the_ceiling_and_beyond[OF d e, where lim = 0] f by blast
  ultimately show ?thesis
    using a b c d e f by blast
qed


subsection \<open>Array headers with a count that is not positive\<close>

text \<open>
  C3. On \<^verbatim>\<open>*0\r\n\<close> the run does not complete: \<^verbatim>\<open>startParseArray\<close> pushes the fields frame and
  a value frame whatever the count, so the run stops for want of data at depth 3, and the
  next value that arrives becomes an element of the array.
\<close>

theorem empty_array_header_waits_for_an_element:
  "Run (arrive (''*0'' @ CRLF) (freshParser 0)) =
     (Some ErrShortRead,
      \<lparr>stack = [\<lparr>run = ParseValue, result = VNil\<rparr>,
                \<lparr>run = ParseNArrayFields 0, result = VNil\<rparr>,
                \<lparr>run = NoAction, result = VArr []\<rparr>],
       BulkCaptureLimit = 0, rd = \<lparr>buf = [], pending = 0\<rparr>\<rparr>) \<and>
   Run (arrive (''*0'' @ CRLF @ '':7'' @ CRLF) (freshParser 0)) =
     (None,
      \<lparr>stack = [\<lparr>run = NoAction, result = VArr [VInt 7]\<rparr>],
       BulkCaptureLimit = 0, rd = \<lparr>buf = [], pending = 0\<rparr>\<rparr>)"
  by code_simp

text \<open>
  C4. On \<^verbatim>\<open>*-1\r\n\<close> the array frame pops and then panics in
  \<^verbatim>\<open>make([]interface{}, 0, n)\<close>: the run ends in a panic, not with a null array.
\<close>

theorem negative_array_count_panics:
  "Run (arrive (''*-1'' @ CRLF) (freshParser 0)) =
     (Some Panic,
      \<lparr>stack = [\<lparr>run = NoAction, result = VNil\<rparr>],
       BulkCaptureLimit = 0, rd = \<lparr>buf = [], pending = 0\<rparr>\<rparr>)"
  by code_simp

subsection \<open>Writes to result slots\<close>

text \<open>
  C8 (as amended). A frame invocation writes no slot but that of the frame immediately
  below the running frame: the stack it leaves is at most two new frames on top of that
  frame, with its action unchanged and some value in its slot, on top of the frames below,
  unchanged. That one slot is written each time a frame above it is popped, and also by
  the assignment in \<^verbatim>\<open>startParseArray\<close>, so in general more than once in a parse.
\<close>

theorem a_step_writes_only_the_slot_below_the_running_frame:
  assumes "stack p = f # g # rest"
  shows "\<exists>new v. stack (snd (step p)) = new @ g\<lparr>result := v\<rparr> # rest \<and> length new \<le> 2"
proof -
  have keep: "\<exists>new v. f # g # rest = new @ g\<lparr>result := v\<rparr> # rest \<and> length new \<le> 2"
    by (rule exI[of _ "[f]"], rule exI[of _ "result g"]) simp
  have one: "\<exists>new v. a # g\<lparr>result := w\<rparr> # rest = new @ g\<lparr>result := v\<rparr> # rest \<and> length new \<le> 2" for a w
    by (rule exI[of _ "[a]"], rule exI[of _ w]) simp
  have two: "\<exists>new v. a # b # g\<lparr>result := w\<rparr> # rest = new @ g\<lparr>result := v\<rparr> # rest \<and> length new \<le> 2" for a b w
    by (rule exI[of _ "[a, b]"], rule exI[of _ w]) simp
  have none: "\<exists>new v. g\<lparr>result := w\<rparr> # rest = new @ g\<lparr>result := v\<rparr> # rest \<and> length new \<le> 2" for w
    by (rule exI[of _ "[]"], rule exI[of _ w]) simp
  show ?thesis
  proof (cases "run f")
    case NoAction
    with assms keep show ?thesis by (simp add: step_def)
  next
    case ParseValue
    with assms keep one two none show ?thesis
      by (auto simp: frame_defs runParseValue_def ReadN_def split: list.splits if_splits)
  next
    case (ParseSimpleString b)
    with assms keep none show ?thesis
      by (auto simp: frame_defs runParseSimpleString_def ReadLine_def split: option.splits)
  next
    case ParseInt
    with assms keep none show ?thesis
      by (auto simp: frame_defs runParseInt_def ReadLine_def split: option.splits sum.splits)
  next
    case ParseBulk
    with assms keep one none show ?thesis
      by (auto simp: frame_defs runParseBulk_def split: rval.splits)
  next
    case (ParseBulkN acc n)
    with assms one none show ?thesis
      by (auto simp: frame_defs runParseBulkN_def ReadN_def)
  next
    case ParseArray
    with assms keep two none show ?thesis
      by (auto simp: frame_defs runParseArray_def split: rval.splits)
  next
    case (ParseNArrayFields n)
    with assms keep two none show ?thesis
      by (auto simp: frame_defs runParseNArrayFields_def split: rval.splits)
  qed
qed


text \<open>The theorem at the value frame of a fresh parser over \<^verbatim>\<open>:5\r\n\<close>.\<close>

theorem slot_writes_witness:
  "stack (arrive ('':5'' @ CRLF) (freshParser 0)) =
     [\<lparr>run = ParseValue, result = VNil\<rparr>, \<lparr>run = NoAction, result = VNil\<rparr>] \<and>
   (\<exists>new v. stack (snd (step (arrive ('':5'' @ CRLF) (freshParser 0)))) =
        new @ \<lparr>run = NoAction, result = VNil\<rparr>\<lparr>result := v\<rparr> # [] \<and> length new \<le> 2)"
proof -
  have h: "stack (arrive ('':5'' @ CRLF) (freshParser 0)) =
     [\<lparr>run = ParseValue, result = VNil\<rparr>, \<lparr>run = NoAction, result = VNil\<rparr>]"
    by code_simp
  from a_step_writes_only_the_slot_below_the_running_frame[OF h] h show ?thesis
    by blast
qed

text \<open>
  The root's slot during the parse of \<^verbatim>\<open>*1\r\n:5\r\n\<close>: after the array frame's invocation
  it holds the empty array, which the pop of that invocation (it pops nil) did not write,
  and after the fields frame's invocation it holds the one-element array.
\<close>

theorem slot_writes_counterexample:
  "stack (snd (steps 2 (arrive (''*1'' @ CRLF @ '':5'' @ CRLF) (freshParser 0)))) =
     [\<lparr>run = ParseArray, result = VInt 1\<rparr>, \<lparr>run = NoAction, result = VNil\<rparr>] \<and>
   stack (pop VNil (snd (steps 2 (arrive (''*1'' @ CRLF @ '':5'' @ CRLF) (freshParser 0))))) =
     [\<lparr>run = NoAction, result = VNil\<rparr>] \<and>
   stack (snd (steps 3 (arrive (''*1'' @ CRLF @ '':5'' @ CRLF) (freshParser 0)))) =
     [\<lparr>run = ParseValue, result = VNil\<rparr>, \<lparr>run = ParseNArrayFields 1, result = VNil\<rparr>,
      \<lparr>run = NoAction, result = VArr []\<rparr>] \<and>
   stack (snd (steps 6 (arrive (''*1'' @ CRLF @ '':5'' @ CRLF) (freshParser 0)))) =
     [\<lparr>run = NoAction, result = VArr [VInt 5]\<rparr>]"
  by code_simp

subsection \<open>The bulk array accessor\<close>

lemma bulkOf_decoded:
  "bulkOf (decoded lim e) =
     (case e of RBulk b \<Rightarrow> if int (length b) \<le> lim then Some b else None | _ \<Rightarrow> None)"
  by (cases e) (simp_all add: bulkOf_def)

text \<open>
  C10. When the result is an array, \<^verbatim>\<open>BulkArray\<close> returns one entry per element in the
  same order: the payload for an element that is a byte slice and nil for every other
  element. After the parse of an array, the entry of an in-limit bulk string is its
  payload, and the entry of every other element (a bulk string over the capture limit, an
  absent bulk, a status, an error, an integer, an array) is nil. When the result is not
  an array, \<^verbatim>\<open>BulkArray\<close> panics.
\<close>

theorem BulkArray_projects_the_captured_bulks:
  "(Result p = Inr (VArr xs) \<longrightarrow>
      BulkArray p = Inr (map bulkOf xs) \<and> length (map bulkOf xs) = length xs \<and>
      (\<forall>i<length xs. map bulkOf xs ! i = (case xs ! i of VBytes b \<Rightarrow> Some b | _ \<Rightarrow> None))) \<and>
   ((\<forall>xs. Result p \<noteq> Inr (VArr xs)) \<longrightarrow> BulkArray p = Inl Panic) \<and>
   (wellFormed (RArray es) \<and> depth (RArray es) \<le> 6 \<longrightarrow>
      BulkArray (snd (Run (arrive (encode (RArray es)) (freshParser lim)))) =
        Inr (map (\<lambda>e. case e of RBulk b \<Rightarrow> if int (length b) \<le> lim then Some b else None
                        | _ \<Rightarrow> None) es))"
proof (intro conjI impI)
  assume "Result p = Inr (VArr xs)"
  then show "BulkArray p = Inr (map bulkOf xs)"
    by (simp add: BulkArray_def)
  show "length (map bulkOf xs) = length xs"
    by simp
  show "\<forall>i<length xs. map bulkOf xs ! i = (case xs ! i of VBytes b \<Rightarrow> Some b | _ \<Rightarrow> None)"
    by (simp add: bulkOf_def)
next
  assume "\<forall>xs. Result p \<noteq> Inr (VArr xs)"
  then show "BulkArray p = Inl Panic"
    by (auto simp: BulkArray_def split: sum.splits rval.splits)
next
  assume "wellFormed (RArray es) \<and> depth (RArray es) \<le> 6"
  then have "Run (arrive (encode (RArray es)) (freshParser lim)) =
      (None, mk [fr NoAction (decoded lim (RArray es))] lim [] 0)"
    by (intro Run_fresh) simp_all
  then show "BulkArray (snd (Run (arrive (encode (RArray es)) (freshParser lim)))) =
        Inr (map (\<lambda>e. case e of RBulk b \<Rightarrow> if int (length b) \<le> lim then Some b else None
                        | _ \<Rightarrow> None) es)"
    by (simp add: BulkArray_def Result_def bulkOf_decoded)
qed

text \<open>
  The theorem at a result that is an array, at a result that is a status, and at the parse
  of an array of six elements under capture limit 3.
\<close>

theorem BulkArray_witness:
  "Result (mk [fr NoAction (VArr [VBytes ''foo'', VInt 7, VNil])] 3 [] 0) =
     Inr (VArr [VBytes ''foo'', VInt 7, VNil]) \<and>
   BulkArray (mk [fr NoAction (VArr [VBytes ''foo'', VInt 7, VNil])] 3 [] 0) =
     Inr [Some ''foo'', None, None] \<and>
   (\<forall>xs. Result (mk [fr NoAction (VStr ''OK'')] 3 [] 0) \<noteq> Inr (VArr xs)) \<and>
   BulkArray (mk [fr NoAction (VStr ''OK'')] 3 [] 0) = Inl Panic \<and>
   wellFormed (RArray [RBulk ''foo'', RBulk ''foobar'', RNullBulk, RStatus ''OK'', RError ''ERR'',
                       RInteger 5]) \<and>
   depth (RArray [RBulk ''foo'', RBulk ''foobar'', RNullBulk, RStatus ''OK'', RError ''ERR'',
                  RInteger 5]) \<le> 6 \<and>
   BulkArray (snd (Run (arrive (encode (RArray [RBulk ''foo'', RBulk ''foobar'', RNullBulk,
                                                RStatus ''OK'', RError ''ERR'', RInteger 5]))
                          (freshParser 3)))) =
     Inr [Some ''foo'', None, None, None, None, None]"
proof -
  let ?p = "mk [fr NoAction (VArr [VBytes ''foo'', VInt 7, VNil])] 3 [] 0"
  let ?q = "mk [fr NoAction (VStr ''OK'')] 3 [] 0"
  let ?es = "[RBulk ''foo'', RBulk ''foobar'', RNullBulk, RStatus ''OK'', RError ''ERR'', RInteger 5]"
  have a: "Result ?p = Inr (VArr [VBytes ''foo'', VInt 7, VNil])"
    by (simp add: Result_def)
  have b: "\<forall>xs. Result ?q \<noteq> Inr (VArr xs)"
    by (simp add: Result_def)
  have c: "wellFormed (RArray ?es)" "depth (RArray ?es) \<le> 6"
    by (simp_all add: maxInt_def minInt_def CR_def LF_def)
  have "BulkArray ?p = Inr (map bulkOf [VBytes ''foo'', VInt 7, VNil])"
    using BulkArray_projects_the_captured_bulks[of ?p "[VBytes ''foo'', VInt 7, VNil]"] a by blast
  moreover have "BulkArray ?q = Inl Panic"
    using BulkArray_projects_the_captured_bulks[of ?q] b by blast
  moreover have "BulkArray (snd (Run (arrive (encode (RArray ?es)) (freshParser 3)))) =
      Inr (map (\<lambda>e. case e of RBulk b \<Rightarrow> if int (length b) \<le> 3 then Some b else None
                        | _ \<Rightarrow> None) ?es)"
    using BulkArray_projects_the_captured_bulks[of _ _ ?es 3] c by blast
  ultimately show ?thesis
    using a b c by (simp add: bulkOf_def)
qed


subsection \<open>Bulk strings\<close>

lemma steps_3: "steps 3 p = steps (Suc (Suc (Suc 0))) p"
  by (simp add: numeral_3_eq_3)

lemma steps_4: "steps 4 p = steps (Suc (Suc (Suc (Suc 0)))) p"
  by (simp add: eval_nat_numeral)

lemma bulk_header_steps:
  assumes "Atoi l = Inr n" "CR \<notin> set l" "length rest + 2 \<le> 8"
  shows "steps (Suc (Suc k)) (mk (fr ParseValue x # g # rest) lim (tagBulk # l @ CRLF @ b) 0) =
         steps k (mk (fr ParseBulk (VInt n) # g\<lparr>result := VNil\<rparr> # rest) lim b 0)"
  using assms by (simp add: step_ParseValue step_ParseInt)

text \<open>
  C5 (as amended). For every bulk-string header whose length line \<^verbatim>\<open>strconv.Atoi\<close>
  accepts as \<open>n\<close>: if \<open>n < 0\<close> the result is nil (the absent bulk) and the reader is left as
  it is after the header; if \<open>0 \<le> n\<close>, \<open>n\<close> is within the capture limit and the payload is
  buffered, the result is the \<open>n\<close> payload bytes and the reader is advanced past them and
  past two more bytes; if \<open>0 \<le> n\<close>, \<open>n\<close> exceeds the capture limit and \<open>n + 2\<close> fits Go's int, no
  payload frame is pushed, the reader is advanced past \<open>n + 2\<close> bytes (those not yet
  buffered are skipped when they arrive) and the result is the integer \<open>n\<close>.
\<close>

theorem bulk_string_header_three_ways:
  assumes "Atoi l = Inr n" "CR \<notin> set l" "length rest + 2 \<le> 8"
  shows "(n < 0 \<longrightarrow>
            steps 3 (mk (fr ParseValue x # g # rest) lim (tagBulk # l @ CRLF @ b) 0) =
              (None, mk (g\<lparr>result := VNil\<rparr> # rest) lim b 0)) \<and>
         (0 \<le> n \<and> n \<le> lim \<and> n \<le> int (length b) \<longrightarrow>
            steps 4 (mk (fr ParseValue x # g # rest) lim (tagBulk # l @ CRLF @ b) 0) =
              (None, mk (g\<lparr>result := VBytes (take (nat n) b)\<rparr> # rest) lim
                       (drop (nat n + 2) b) (nat n + 2 - length b))) \<and>
         (0 \<le> n \<and> lim < n \<and> n + 2 \<le> maxInt \<longrightarrow>
            steps 3 (mk (fr ParseValue x # g # rest) lim (tagBulk # l @ CRLF @ b) 0) =
              (None, mk (g\<lparr>result := VInt n\<rparr> # rest) lim
                       (drop (nat n + 2) b) (nat n + 2 - length b)))"
proof (intro conjI impI)
  assume "n < 0"
  then show "steps 3 (mk (fr ParseValue x # g # rest) lim (tagBulk # l @ CRLF @ b) 0) =
              (None, mk (g\<lparr>result := VNil\<rparr> # rest) lim b 0)"
    unfolding steps_3 bulk_header_steps[OF assms] by (simp add: step_ParseBulk)
next
  assume a: "0 \<le> n \<and> n \<le> lim \<and> n \<le> int (length b)"
  then have "2 - (length b - nat n) = nat n + 2 - length b"
    by linarith
  with a show "steps 4 (mk (fr ParseValue x # g # rest) lim (tagBulk # l @ CRLF @ b) 0) =
              (None, mk (g\<lparr>result := VBytes (take (nat n) b)\<rparr> # rest) lim
                       (drop (nat n + 2) b) (nat n + 2 - length b))"
    unfolding steps_4 bulk_header_steps[OF assms]
    by (simp add: step_ParseBulk step_ParseBulkN_done Discard_def add.commute)
next
  assume a: "0 \<le> n \<and> lim < n \<and> n + 2 \<le> maxInt"
  then have n: "\<not> n < 0" "\<not> n \<le> lim"
    by simp_all
  have w: "wrapInt (n + 2) = n + 2"
    using a n by (intro wrapInt_id) (simp_all add: minInt_def)
  from n show "steps 3 (mk (fr ParseValue x # g # rest) lim (tagBulk # l @ CRLF @ b) 0) =
              (None, mk (g\<lparr>result := VInt n\<rparr> # rest) lim
                       (drop (nat n + 2) b) (nat n + 2 - length b))"
    unfolding steps_3 bulk_header_steps[OF assms]
    by (simp add: step_ParseBulk w Discard_def nat_add_distrib)
qed


text \<open>
  The theorem at \<^verbatim>\<open>$-1\r\n\<close>, at \<^verbatim>\<open>$6\r\nfoobar\r\n\<close> under capture limit 10, and at
  \<^verbatim>\<open>$6\r\n\<close> under capture limit 3 when only \<^verbatim>\<open>foo\<close> has arrived: five more bytes are
  skipped when they arrive.
\<close>

theorem bulk_string_header_witness:
  "Atoi ''-1'' = Inr (- 1) \<and> CR \<notin> set ''-1'' \<and> length ([] :: stackFrame list) + 2 \<le> 8 \<and>
   (- 1 :: int) < 0 \<and>
   steps 3 (mk [fr ParseValue VNil, fr NoAction VNil] 10 (tagBulk # ''-1'' @ CRLF @ ''+OK'') 0) =
     (None, mk [fr NoAction VNil] 10 ''+OK'' 0) \<and>
   Atoi ''6'' = Inr 6 \<and> CR \<notin> set ''6'' \<and>
   (0 :: int) \<le> 6 \<and> (6 :: int) \<le> 10 \<and> 6 \<le> int (length (''foobar'' @ CRLF @ ''+OK'')) \<and>
   steps 4 (mk [fr ParseValue VNil, fr NoAction VNil] 10
              (tagBulk # ''6'' @ CRLF @ ''foobar'' @ CRLF @ ''+OK'') 0) =
     (None, mk [fr NoAction (VBytes ''foobar'')] 10 ''+OK'' 0) \<and>
   (3 :: int) < 6 \<and> (6 :: int) + 2 \<le> maxInt \<and>
   steps 3 (mk [fr ParseValue VNil, fr NoAction VNil] 3 (tagBulk # ''6'' @ CRLF @ ''foo'') 0) =
     (None, mk [fr NoAction (VInt 6)] 3 [] 5)"
proof -
  have a: "Atoi ''-1'' = Inr (- 1)" "Atoi ''6'' = Inr 6"
    by code_simp+
  have c: "CR \<notin> set ''-1''" "CR \<notin> set ''6''"
    by (simp_all add: CR_def)
  have l: "length ([] :: stackFrame list) + 2 \<le> 8"
    by simp
  have m: "(6 :: int) + 2 \<le> maxInt"
    by (simp add: maxInt_def)
  have "steps 3 (mk [fr ParseValue VNil, fr NoAction VNil] 10 (tagBulk # ''-1'' @ CRLF @ ''+OK'') 0) =
     (None, mk [fr NoAction VNil] 10 ''+OK'' 0)"
    using bulk_string_header_three_ways[OF a(1) c(1) l, of VNil "fr NoAction VNil" 10 "''+OK''"]
    by simp
  moreover have "steps 4 (mk [fr ParseValue VNil, fr NoAction VNil] 10
              (tagBulk # ''6'' @ CRLF @ ''foobar'' @ CRLF @ ''+OK'') 0) =
     (None, mk [fr NoAction (VBytes ''foobar'')] 10 ''+OK'' 0)"
    using bulk_string_header_three_ways[OF a(2) c(2) l, of VNil "fr NoAction VNil" 10
        "''foobar'' @ CRLF @ ''+OK''"]
    by (simp add: CRLF_def)
  moreover have "steps 3 (mk [fr ParseValue VNil, fr NoAction VNil] 3 (tagBulk # ''6'' @ CRLF @ ''foo'') 0) =
     (None, mk [fr NoAction (VInt 6)] 3 [] 5)"
    using bulk_string_header_three_ways[OF a(2) c(2) l, of VNil "fr NoAction VNil" 3 "''foo''"] m
    by simp
  ultimately show ?thesis
    using a c m by simp
qed

text \<open>
  A declared length outside Go's int is a range error of the conversion, and at the
  largest int the count \<open>n + 2\<close> handed to \<^verbatim>\<open>Discard\<close> wraps to a negative number, on
  which the reader skips nothing.
\<close>

theorem bulk_string_header_counterexample:
  "fst (Run (arrive (''$9223372036854775808'' @ CRLF) (freshParser 0))) = Some (NumError ErrRange) \<and>
   wrapInt (9223372036854775807 + 2) = - 9223372036854775807 \<and>
   Run (arrive (''$9223372036854775807'' @ CRLF @ ''abc'') (freshParser 0)) =
     (None, \<lparr>stack = [\<lparr>run = NoAction, result = VInt 9223372036854775807\<rparr>], BulkCaptureLimit = 0,
              rd = \<lparr>buf = ''abc'', pending = 0\<rparr>\<rparr>)"
  by code_simp

text \<open>
  C6. A payload frame whose read returns fewer bytes than requested appends the bytes it got
  to its accumulator, discards exactly those bytes from the reader, and is replaced by a
  payload frame with the extended accumulator that requests the remaining count; and when
  the payload arrives in any sequence of chunks, the completed result is the full payload.
\<close>

theorem short_reads_accumulate_the_payload:
  "(stack p = f # g # rest \<and> run f = ParseBulkN acc n \<and> int (length (buf (rd p))) < n \<longrightarrow>
      step p =
        (Some ErrShortRead,
         p\<lparr>stack := \<lparr>run = ParseBulkN (acc @ buf (rd p)) (n - int (length (buf (rd p)))),
                       result = VNil\<rparr> # g\<lparr>result := VNil\<rparr> # rest,
           rd := (rd p)\<lparr>buf := []\<rparr>\<rparr>)) \<and>
   (concat cs = payload @ after \<and> int (length payload) = n \<longrightarrow>
      fst (runChunks (mk [fr (ParseBulkN acc n) x, g] lim [] 0) cs) = None \<and>
      stack (snd (runChunks (mk [fr (ParseBulkN acc n) x, g] lim [] 0) cs)) =
        [g\<lparr>result := VBytes (acc @ payload)\<rparr>])"
proof (intro conjI impI)
  assume "stack p = f # g # rest \<and> run f = ParseBulkN acc n \<and> int (length (buf (rd p))) < n"
  then show "step p =
        (Some ErrShortRead,
         p\<lparr>stack := \<lparr>run = ParseBulkN (acc @ buf (rd p)) (n - int (length (buf (rd p)))),
                       result = VNil\<rparr> # g\<lparr>result := VNil\<rparr> # rest,
           rd := (rd p)\<lparr>buf := []\<rparr>\<rparr>)"
    by (simp add: frame_defs runParseBulkN_def ReadN_def Discard_def)
next
  let ?p = "mk [fr (ParseBulkN acc n) x, g] lim [] 0"
  assume a: "concat cs = payload @ after \<and> int (length payload) = n"
  have "Run (arrive (concat cs) ?p) = Run (mk (fr (ParseBulkN acc n) x # g # []) lim (payload @ after) 0)"
    using a by (simp add: arrive_mk)
  also have "\<dots> = Run ((mk (g\<lparr>result := VBytes (acc @ take (nat n) (payload @ after))\<rparr> # []) lim
                            (payload @ after) 0)
                       \<lparr>rd := Discard 2 \<lparr>buf = drop (nat n) (payload @ after), pending = 0\<rparr>\<rparr>)"
    by (rule Run_step2) (use a in \<open>simp add: step_ParseBulkN_done\<close>)
  also have "\<dots> = (None, (mk [g\<lparr>result := VBytes (acc @ payload)\<rparr>] lim (payload @ after) 0)
                       \<lparr>rd := Discard 2 \<lparr>buf = after, pending = 0\<rparr>\<rparr>)"
  proof -
    from a have "nat n = length payload" by auto
    then show ?thesis by (simp add: Run_done)
  qed
  finally have "Run (arrive (concat cs) ?p) =
      (None, (mk [g\<lparr>result := VBytes (acc @ payload)\<rparr>] lim (payload @ after) 0)
                       \<lparr>rd := Discard 2 \<lparr>buf = after, pending = 0\<rparr>\<rparr>)" .
  with runChunks_concat[of ?p cs]
  show "fst (runChunks ?p cs) = None"
    and "stack (snd (runChunks ?p cs)) = [g\<lparr>result := VBytes (acc @ payload)\<rparr>]"
    by simp_all
qed

text \<open>
  The theorem at a payload frame that asks for six bytes when three are buffered, and at a
  payload of six bytes arriving in four chunks, the last with the terminator.
\<close>

theorem short_reads_witness:
  "stack (mk [fr (ParseBulkN ''ab'' 6) VNil, fr NoAction VNil] 10 ''cde'' 0) =
     [fr (ParseBulkN ''ab'' 6) VNil, fr NoAction VNil] \<and>
   run (fr (ParseBulkN ''ab'' 6) VNil) = ParseBulkN ''ab'' 6 \<and>
   int (length (buf (rd (mk [fr (ParseBulkN ''ab'' 6) VNil, fr NoAction VNil] 10 ''cde'' 0)))) < 6 \<and>
   step (mk [fr (ParseBulkN ''ab'' 6) VNil, fr NoAction VNil] 10 ''cde'' 0) =
     (Some ErrShortRead, mk [fr (ParseBulkN ''abcde'' 3) VNil, fr NoAction VNil] 10 [] 0) \<and>
   concat [''f'', ''oo'', ''b'', ''ar'' @ CRLF] = ''foobar'' @ CRLF \<and>
   int (length ''foobar'') = 6 \<and>
   fst (runChunks (mk [fr (ParseBulkN [] 6) VNil, fr NoAction VNil] 10 [] 0)
          [''f'', ''oo'', ''b'', ''ar'' @ CRLF]) = None \<and>
   stack (snd (runChunks (mk [fr (ParseBulkN [] 6) VNil, fr NoAction VNil] 10 [] 0)
          [''f'', ''oo'', ''b'', ''ar'' @ CRLF])) = [fr NoAction (VBytes ''foobar'')]"
proof -
  let ?p = "mk [fr (ParseBulkN ''ab'' 6) VNil, fr NoAction VNil] 10 ''cde'' 0"
  let ?cs = "[''f'', ''oo'', ''b'', ''ar'' @ CRLF]"
  have a: "stack ?p = [fr (ParseBulkN ''ab'' 6) VNil, fr NoAction VNil] \<and>
           run (fr (ParseBulkN ''ab'' 6) VNil) = ParseBulkN ''ab'' 6 \<and>
           int (length (buf (rd ?p))) < 6"
    by simp
  have b: "concat ?cs = ''foobar'' @ CRLF \<and> int (length ''foobar'') = 6"
    by simp
  have "step ?p = (Some ErrShortRead, mk [fr (ParseBulkN ''abcde'' 3) VNil, fr NoAction VNil] 10 [] 0)"
    using short_reads_accumulate_the_payload[where p = ?p and f = "fr (ParseBulkN ''ab'' 6) VNil"
        and g = "fr NoAction VNil" and rest = "[]" and acc = "''ab''" and n = 6] a
    by simp
  moreover have "fst (runChunks (mk [fr (ParseBulkN [] 6) VNil, fr NoAction VNil] 10 [] 0) ?cs) = None \<and>
      stack (snd (runChunks (mk [fr (ParseBulkN [] 6) VNil, fr NoAction VNil] 10 [] 0) ?cs)) =
        [fr NoAction (VBytes ''foobar'')]"
    using short_reads_accumulate_the_payload[where acc = "[]" and n = 6 and cs = ?cs
        and payload = "''foobar''" and after = CRLF and x = VNil and g = "fr NoAction VNil"
        and lim = 10] b
    by simp
  ultimately show ?thesis
    using a b by simp
qed


subsection \<open>Protocol violations\<close>

lemma parseUint_not_digits: "\<not> list_all isDigit s \<Longrightarrow> \<exists>e. parseUint n s = Inl e"
  by (induction s arbitrary: n) (auto simp: Let_def)

lemma parseUint_digits: "list_all isDigit s \<Longrightarrow> parseUint n s \<noteq> Inl ErrSyntax"
  by (induction s arbitrary: n) (auto simp: Let_def)

lemma Atoi_not_numeric:
  assumes "\<not> numeric l"
  shows "\<exists>e. Atoi l = Inl e"
proof (cases l)
  case Nil
  then show ?thesis by (simp add: Atoi_def)
next
  case (Cons c cs)
  show ?thesis
  proof (cases "c = CHR ''-'' \<or> c = CHR ''+''")
    case True
    with assms Cons have "cs = [] \<or> \<not> list_all isDigit cs"
      by (auto simp: numeric_def)
    then show ?thesis
    proof
      assume "cs = []"
      with True Cons show ?thesis by (auto simp: Atoi_def)
    next
      assume "\<not> list_all isDigit cs"
      from parseUint_not_digits[OF this, of 0] True Cons show ?thesis
        by (auto simp: Atoi_def Let_def)
    qed
  next
    case False
    with assms Cons have "\<not> list_all isDigit l"
      by (auto simp: numeric_def)
    from parseUint_not_digits[OF this, of 0] False Cons show ?thesis
      by (auto simp: Atoi_def Let_def)
  qed
qed

lemma Atoi_syntax_only:
  assumes "Atoi l = Inl ErrSyntax"
  shows "\<not> numeric l"
proof
  assume n: "numeric l"
  then obtain c cs where l: "l = c # cs"
    by (cases l) (auto simp: numeric_def)
  show False
  proof (cases "c = CHR ''-'' \<or> c = CHR ''+''")
    case True
    with n l have "cs \<noteq> []" "list_all isDigit cs"
      by (auto simp: numeric_def)
    with parseUint_digits[of cs 0] assms True l show False
      by (auto simp: Atoi_def Let_def split: sum.splits if_splits)
  next
    case False
    with n l have "list_all isDigit l"
      by (auto simp: numeric_def)
    with parseUint_digits[of l 0] assms False l show False
      by (auto simp: Atoi_def Let_def split: sum.splits if_splits)
  qed
qed

lemma value_ProtocolErr:
  assumes "stack p = f # g # rest"
  shows "fst (runParseValue p) = Some ProtocolErr \<longleftrightarrow>
         int (length (stack p)) \<le> stackLimit \<and>
         (\<exists>c bs. buf (rd p) = c # bs \<and> c \<notin> {tagStatus, tagError, tagInt, tagBulk, tagArray})"
  using assms
  by (cases "buf (rd p)")
    (auto simp: runParseValue_def ReadN_def Let_def start_defs push_def pop_def)

lemma step_ProtocolErr:
  "fst (step p) = Some ProtocolErr \<longleftrightarrow>
     (\<exists>f g rest c bs. stack p = f # g # rest \<and> run f = ParseValue \<and>
        int (length (stack p)) \<le> stackLimit \<and> buf (rd p) = c # bs \<and>
        c \<notin> {tagStatus, tagError, tagInt, tagBulk, tagArray})"
proof (cases "stack p")
  case Nil
  then show ?thesis by (simp add: step_def)
next
  case (Cons f st)
  show ?thesis
  proof (cases st)
    case Nil
    with Cons show ?thesis by (simp add: step_def)
  next
    case (Cons g rest)
    with \<open>stack p = f # st\<close> have st: "stack p = f # g # rest" by simp
    show ?thesis
    proof (cases "run f")
      case ParseValue
      with st value_ProtocolErr[OF st] show ?thesis
        by (simp add: step_def)
    next
      case (ParseSimpleString b)
      with st show ?thesis
        by (auto simp: step_def runParseSimpleString_def split: prod.splits sum.splits)
           (auto simp: ReadLine_def split: option.splits)
    next
      case ParseInt
      with st show ?thesis
        by (auto simp: step_def runParseInt_def split: prod.splits sum.splits)
           (auto simp: ReadLine_def split: option.splits)
    next
      case ParseBulk
      with st show ?thesis
        by (auto simp: step_def runParseBulk_def Let_def split: sum.splits rval.splits)
    next
      case (ParseBulkN acc n)
      with st show ?thesis
        by (auto simp: step_def runParseBulkN_def Let_def ReadN_def)
    next
      case ParseArray
      with st show ?thesis
        by (auto simp: step_def runParseArray_def Let_def split: sum.splits rval.splits)
    next
      case (ParseNArrayFields n)
      with st show ?thesis
        by (auto simp: step_def runParseNArrayFields_def Let_def split: rval.splits)
    qed (use st in \<open>simp add: step_def\<close>)
  qed
qed

lemma step_NumError:
  "(\<exists>e. fst (step p) = Some (NumError e)) \<longleftrightarrow>
     (\<exists>f g rest l t e. stack p = f # g # rest \<and> run f = ParseInt \<and>
        splitLine (buf (rd p)) = Some (l, t) \<and> Atoi l = Inl e)"
proof (cases "stack p")
  case Nil
  then show ?thesis by (simp add: step_def)
next
  case (Cons f st)
  show ?thesis
  proof (cases st)
    case Nil
    with Cons show ?thesis by (simp add: step_def)
  next
    case (Cons g rest)
    with \<open>stack p = f # st\<close> have st: "stack p = f # g # rest" by simp
    show ?thesis
    proof (cases "run f")
      case ParseValue
      with st show ?thesis
        by (auto simp: step_def runParseValue_def Let_def ReadN_def split: list.splits)
    next
      case (ParseSimpleString b)
      with st show ?thesis
        by (auto simp: step_def runParseSimpleString_def ReadLine_def split: option.splits)
    next
      case ParseInt
      with st show ?thesis
        by (auto simp: step_def runParseInt_def ReadLine_def split: option.splits sum.splits)
    next
      case ParseBulk
      with st show ?thesis
        by (auto simp: step_def runParseBulk_def Let_def split: sum.splits rval.splits)
    next
      case (ParseBulkN acc n)
      with st show ?thesis
        by (auto simp: step_def runParseBulkN_def Let_def ReadN_def)
    next
      case ParseArray
      with st show ?thesis
        by (auto simp: step_def runParseArray_def Let_def split: sum.splits rval.splits)
    next
      case (ParseNArrayFields n)
      with st show ?thesis
        by (auto simp: step_def runParseNArrayFields_def Let_def split: rval.splits)
    qed (use st in \<open>simp add: step_def\<close>)
  qed
qed

text \<open>
  C9 (as amended). A frame returns \<^verbatim>\<open>ProtocolErr\<close> exactly when it is a value frame within
  the stack limit whose first byte is none of the five tags, and it returns a conversion
  error of \<^verbatim>\<open>strconv.Atoi\<close> (not \<^verbatim>\<open>ProtocolErr\<close>) exactly when it is an integer frame
  whose line the conversion rejects, as it does every line that is not numeric. \<^verbatim>\<open>Run\<close>
  returns an error only as the error of a frame it invoked, and either of these errors
  ends the caller's loop of feeding and resuming.
\<close>

theorem protocol_and_conversion_errors:
  "(fst (step p) = Some ProtocolErr \<longleftrightarrow>
      (\<exists>f g rest c bs. stack p = f # g # rest \<and> run f = ParseValue \<and>
         int (length (stack p)) \<le> stackLimit \<and> buf (rd p) = c # bs \<and>
         c \<notin> {tagStatus, tagError, tagInt, tagBulk, tagArray})) \<and>
   ((\<exists>e. fst (step p) = Some (NumError e)) \<longleftrightarrow>
      (\<exists>f g rest l t e. stack p = f # g # rest \<and> run f = ParseInt \<and>
         splitLine (buf (rd p)) = Some (l, t) \<and> Atoi l = Inl e)) \<and>
   (\<not> numeric l \<longrightarrow> (\<exists>e. Atoi l = Inl e)) \<and>
   (Atoi l = Inl ErrSyntax \<longrightarrow> \<not> numeric l) \<and>
   (fst (Run p) = Some e \<longrightarrow> (\<exists>k q. steps k p = (None, q) \<and> step q = Run p)) \<and>
   (fst (Run p) = Some ProtocolErr \<or> (\<exists>e. fst (Run p) = Some (NumError e)) \<longrightarrow>
      runChunks p cs = Run p)"
proof -
  have "runChunks p cs = Run p"
    if "fst (Run p) = Some ProtocolErr \<or> (\<exists>e. fst (Run p) = Some (NumError e))"
    using that by (intro runChunks_stops) auto
  then show ?thesis
    using step_ProtocolErr[of p] step_NumError[of p] Run_error_from_step[of p e]
      Atoi_not_numeric[of l] Atoi_syntax_only[of l]
    by blast
qed

text \<open>
  The theorem at a fresh parser over \<^verbatim>\<open>?\r\n\<close> and over \<^verbatim>\<open>:abc\r\n\<close>, and at the line
  \<^verbatim>\<open>abc\<close>.
\<close>

theorem protocol_errors_witness:
  "fst (step (arrive (''?'' @ CRLF) (freshParser 0))) = Some ProtocolErr \<and>
   fst (Run (arrive (''?'' @ CRLF) (freshParser 0))) = Some ProtocolErr \<and>
   (\<exists>k q. steps k (arrive (''?'' @ CRLF) (freshParser 0)) = (None, q) \<and>
          step q = Run (arrive (''?'' @ CRLF) (freshParser 0))) \<and>
   runChunks (arrive (''?'' @ CRLF) (freshParser 0)) [''+OK'' @ CRLF] =
     Run (arrive (''?'' @ CRLF) (freshParser 0)) \<and>
   fst (Run (arrive ('':abc'' @ CRLF) (freshParser 0))) = Some (NumError ErrSyntax) \<and>
   runChunks (arrive ('':abc'' @ CRLF) (freshParser 0)) [''+OK'' @ CRLF] =
     Run (arrive ('':abc'' @ CRLF) (freshParser 0)) \<and>
   \<not> numeric ''abc'' \<and> (\<exists>e. Atoi ''abc'' = Inl e)"
proof -
  let ?p = "arrive (''?'' @ CRLF) (freshParser 0)"
  let ?q = "arrive ('':abc'' @ CRLF) (freshParser 0)"
  have a: "fst (step ?p) = Some ProtocolErr"
    by code_simp
  have b: "fst (Run ?p) = Some ProtocolErr"
    by code_simp
  have c: "fst (Run ?q) = Some (NumError ErrSyntax)"
    by code_simp
  have d: "\<not> numeric ''abc''"
    by code_simp
  have "\<exists>k q. steps k ?p = (None, q) \<and> step q = Run ?p"
    using protocol_and_conversion_errors[where p = ?p and e = ProtocolErr] b by blast
  moreover have "runChunks ?p [''+OK'' @ CRLF] = Run ?p"
    using protocol_and_conversion_errors[where p = ?p and cs = "[''+OK'' @ CRLF]"] b by blast
  moreover have "runChunks ?q [''+OK'' @ CRLF] = Run ?q"
    using protocol_and_conversion_errors[where p = ?q and cs = "[''+OK'' @ CRLF]"] c by blast
  moreover have "\<exists>e. Atoi ''abc'' = Inl e"
    using protocol_and_conversion_errors[where l = "''abc''"] d by blast
  ultimately show ?thesis
    using a b c d by blast
qed

text \<open>
  A non-numeric integer, length or count line makes \<^verbatim>\<open>Run\<close> return the conversion's syntax
  error, which is not \<^verbatim>\<open>ProtocolErr\<close>; and the parser does not hold on to a protocol
  violation: after \<^verbatim>\<open>ProtocolErr\<close> on the first byte the root alone is left, and a second
  \<^verbatim>\<open>Run\<close> returns no error.
\<close>

theorem protocol_errors_counterexample:
  "fst (Run (arrive ('':abc'' @ CRLF) (freshParser 0))) = Some (NumError ErrSyntax) \<and>
   fst (Run (arrive (''$abc'' @ CRLF) (freshParser 0))) = Some (NumError ErrSyntax) \<and>
   fst (Run (arrive (''*abc'' @ CRLF) (freshParser 0))) = Some (NumError ErrSyntax) \<and>
   fst (Run (arrive (''?'' @ CRLF) (freshParser 0))) = Some ProtocolErr \<and>
   fst (Run (snd (Run (arrive (''?'' @ CRLF) (freshParser 0))))) = None"
  by code_simp


end
